theory Spec2Isabelle
  imports Complex_Main "HOL-Library.Char_ord" "HOL-Library.List_Lexorder" "HOL-Library.Multiset"
begin

section \<open>Data model\<close>

text \<open>
  A cell of a pandas frame is null (NaN or None), a number or a text. Numbers are
  rationals: the rounding of float64 is not modelled, and where the source divides
  (\<open>drop_missing\<close>) the quotient is a parameter of the model.
\<close>

datatype cell = Null | Num rat | Text string

datatype error = KeyError string | IndexError | TypeError | AttributeError | ValueError string

text \<open>
  A frame holds its row labels and its columns in order, every column a name and the
  cells of that column by row position. pandas looks rows up by label
  (\<open>drop\<close>, \<open>loc\<close>) and columns by name; the model does the same, so that labels
  or names occurring twice behave as they do in pandas.
\<close>

type_synonym column = "string \<times> cell list"

record dataframe =
  index :: "nat list"
  columns :: "column list"

definition isna :: "cell \<Rightarrow> bool" where
  "isna c = (c = Null)"

definition col_names :: "dataframe \<Rightarrow> string list" where
  "col_names df = map fst (columns df)"

definition wf_df :: "dataframe \<Rightarrow> bool" where
  "wf_df df \<longleftrightarrow>
     distinct (index df) \<and> distinct (col_names df) \<and>
     list_all (\<lambda>c. length (snd c) = length (index df)) (columns df)"

text \<open>The rows of a frame, each with its label: what \<open>iterrows\<close> yields.\<close>

definition row_cells :: "dataframe \<Rightarrow> nat \<Rightarrow> cell list" where
  "row_cells df p = map (\<lambda>c. snd c ! p) (columns df)"

definition rows_of :: "dataframe \<Rightarrow> (nat \<times> cell list) list" where
  "rows_of df = map (\<lambda>p. (index df ! p, row_cells df p)) [0..<length (index df)]"

text \<open>Boolean-mask selection \<open>xs[mask]\<close>.\<close>

definition sel :: "bool list \<Rightarrow> 'a list \<Rightarrow> 'a list" where
  "sel m xs = map snd (filter fst (zip m xs))"

definition keep_rows :: "bool list \<Rightarrow> dataframe \<Rightarrow> dataframe" where
  "keep_rows m df =
     \<lparr>index = sel m (index df), columns = map (\<lambda>c. (fst c, sel m (snd c))) (columns df)\<rparr>"

text \<open>
  \<open>dataframe.drop(labels, axis=0)\<close> removes every row whose label is listed, and
  \<open>dataframe.drop(names, axis=1)\<close> every column whose name is listed. Both raise
  KeyError for a label that is not there; \<open>drop_rows\<close> and \<open>drop_cols\<close> are the
  calls whose labels were read off the frame itself.
\<close>

definition drop_rows :: "nat list \<Rightarrow> dataframe \<Rightarrow> dataframe" where
  "drop_rows ls df = keep_rows (map (\<lambda>l. l \<notin> set ls) (index df)) df"

definition drop_cols :: "string list \<Rightarrow> dataframe \<Rightarrow> dataframe" where
  "drop_cols ns df = df\<lparr>columns := filter (\<lambda>c. fst c \<notin> set ns) (columns df)\<rparr>"

section \<open>Threshold pruning\<close>

definition count_nulls :: "cell list \<Rightarrow> nat" where
  "count_nulls cs = length (filter isna cs)"

text \<open>\<open>dataframe.isnull().sum(axis=1)\<close> and \<open>dataframe.isnull().sum(axis=0)\<close>.\<close>

definition row_nulls :: "dataframe \<Rightarrow> nat list" where
  "row_nulls df = map (\<lambda>p. count_nulls (row_cells df p)) [0..<length (index df)]"

definition col_nulls :: "dataframe \<Rightarrow> nat list" where
  "col_nulls df = map (\<lambda>c. count_nulls (snd c)) (columns df)"

text \<open>
  \<open>drop_missing\<close> of clean_data.py. \<open>quot c n\<close> stands for the float64 quotient
  \<open>c / n\<close> of a null count by the size of the opposite axis, compared with the
  threshold in the order of the floats.
\<close>

definition drop_missing ::
  "(nat \<Rightarrow> nat \<Rightarrow> 'f::linorder) \<Rightarrow> dataframe \<Rightarrow> bool \<Rightarrow> 'f \<Rightarrow> dataframe" where
  "drop_missing quot df row threshold =
     (if row then
        let n = length (columns df);
            to_drop = map (\<lambda>c. quot c n) (row_nulls df);
            to_drop = sel (map (\<lambda>f. f > threshold) to_drop) (index df)
        in drop_rows to_drop df
      else
        let n = length (index df);
            to_drop = map (\<lambda>c. quot c n) (col_nulls df);
            to_drop = sel (map (\<lambda>f. f > threshold) to_drop) (col_names df)
        in drop_cols to_drop df)"

text \<open>
  The frames a program holds live in a store, a frame per address. A call that returns
  a new frame allocates it at the next free address; a call that works in place
  overwrites the frame at the address it was given.
\<close>

type_synonym store = "dataframe list"

definition alloc :: "dataframe \<Rightarrow> store \<Rightarrow> store \<times> nat" where
  "alloc df s = (s @ [df], length s)"

definition drop_missing_st ::
  "(nat \<Rightarrow> nat \<Rightarrow> 'f::linorder) \<Rightarrow> nat \<Rightarrow> bool \<Rightarrow> 'f \<Rightarrow> store \<Rightarrow> store \<times> nat" where
  "drop_missing_st quot r row threshold s = alloc (drop_missing quot (s ! r) row threshold) s"

section \<open>Columns and series\<close>

text \<open>
  \<open>dataframe[column]\<close> raises KeyError for a name that is not a column;
  \<open>dataframe[column] = values\<close> replaces the column of that name or, when there
  is none, appends it.
\<close>

definition get_col :: "dataframe \<Rightarrow> string \<Rightarrow> error + cell list" where
  "get_col df c = (case map_of (columns df) c of None \<Rightarrow> Inl (KeyError c) | Some cs \<Rightarrow> Inr cs)"

definition set_col :: "string \<Rightarrow> cell list \<Rightarrow> dataframe \<Rightarrow> dataframe" where
  "set_col c vs df =
     (if c \<in> set (col_names df)
      then df\<lparr>columns := map (\<lambda>k. if fst k = c then (c, vs) else k) (columns df)\<rparr>
      else df\<lparr>columns := columns df @ [(c, vs)]\<rparr>)"

text \<open>An exception leaves the rest of the function undone: the error is passed on.\<close>

definition bindE :: "error + 'a \<Rightarrow> ('a \<Rightarrow> error + 'b) \<Rightarrow> error + 'b" where
  "bindE m f = (case m of Inl e \<Rightarrow> Inl e | Inr x \<Rightarrow> f x)"

text \<open>
  The elementwise \<open>series == value\<close>: a null equals nothing, itself included.
\<close>

definition cell_eq :: "cell \<Rightarrow> cell \<Rightarrow> bool" where
  "cell_eq a b = (a \<noteq> Null \<and> a = b)"

definition fillna :: "cell \<Rightarrow> cell list \<Rightarrow> cell list" where
  "fillna v cs = map (\<lambda>c. if isna c then v else c) cs"

text \<open>
  What the model takes from pandas without fixing it: the sort that arranges the counts
  of \<open>value_counts\<close> (pandas sorts them with a sort that is not stable, so the order
  it gives to values of the same count is its own); whether the integer key of
  \<open>series[0]\<close> is read as a label on a count series, where the cells do not tell (a
  column without a value, whose dtype they do not record, and labels mixing texts with
  numbers, where it depends on the numbers being Python integers); and the parser of
  numbers of \<open>pd.to_numeric\<close>.
\<close>

record pandas =
  order_counts :: "(cell \<times> nat) list \<Rightarrow> (cell \<times> nat) list"
  key_as_label :: "cell list \<Rightarrow> bool"
  parse_number :: "string \<Rightarrow> rat option"

text \<open>The sort of the counts rearranges them, and by falling count.\<close>

definition falling_order :: "pandas \<Rightarrow> bool" where
  "falling_order lib \<longleftrightarrow>
     (\<forall>xs. mset (order_counts lib xs) = mset xs \<and>
           sorted_wrt (\<lambda>a b. snd b \<le> snd a) (order_counts lib xs))"

text \<open>
  \<open>series.value_counts()\<close>, a function of pandas: the non-null values of the series,
  each once with the number of its occurrences, in the order the sort of the library
  gives them.
\<close>

definition value_counts :: "pandas \<Rightarrow> cell list \<Rightarrow> (cell \<times> nat) list" where
  "value_counts lib cs =
     (let vs = filter (\<lambda>c. \<not> isna c) cs
      in order_counts lib (map (\<lambda>v. (v, count_list vs v)) (rev (remdups (rev vs)))))"

section \<open>Mode imputation\<close>

text \<open>
  \<open>search_similar_zip\<close>: \<open>.index[0]\<close> of the value counts of the column over the
  rows with the given zipcode; the IndexError of an empty count is caught and None
  returned, a KeyError is not caught.
\<close>

definition search_similar_zip :: "pandas \<Rightarrow> dataframe \<Rightarrow> string \<Rightarrow> cell \<Rightarrow> error + cell" where
  "search_similar_zip lib df column zipcode =
     bindE (get_col df column) (\<lambda>cs.
     bindE (get_col df ''zipcode'') (\<lambda>zs.
       (case value_counts lib (sel (map (\<lambda>z. cell_eq z zipcode) zs) cs) of
          [] \<Rightarrow> Inr Null
        | e # _ \<Rightarrow> Inr (fst e))))"

text \<open>
  \<open>dataframe.loc[i, column] = v\<close> on a row label and a column name that exist: the
  cell of every row labelled \<open>i\<close> in every column of that name.
\<close>

definition loc_set :: "nat \<Rightarrow> string \<Rightarrow> cell \<Rightarrow> dataframe \<Rightarrow> dataframe" where
  "loc_set i column v df =
     df\<lparr>columns :=
          map (\<lambda>k. if fst k = column
                    then (fst k, map (\<lambda>lc. if fst lc = i then v else snd lc) (zip (index df) (snd k)))
                    else k)
              (columns df)\<rparr>"

text \<open>
  The loop of \<open>get_mode_by_zip\<close> runs over the rows that were null in the column
  when the loop began (label and zipcode of each), and writes into the frame as it goes,
  so that a later search sees the cells filled before it.
\<close>

fun impute_rows ::
  "pandas \<Rightarrow> string \<Rightarrow> (nat \<times> cell) list \<Rightarrow> dataframe \<Rightarrow> error + dataframe" where
  "impute_rows lib column [] df = Inr df"
| "impute_rows lib column (iz # rest) df =
     bindE (search_similar_zip lib df column (snd iz)) (\<lambda>v.
       impute_rows lib column rest (loc_set (fst iz) column v df))"

definition get_mode_by_zip :: "pandas \<Rightarrow> dataframe \<Rightarrow> string \<Rightarrow> error + dataframe" where
  "get_mode_by_zip lib df column =
     bindE (get_col df column) (\<lambda>cs.
     bindE (get_col df ''zipcode'') (\<lambda>zs.
       impute_rows lib column (sel (map isna cs) (zip (index df) zs)) df))"

text \<open>
  \<open>get_mode\<close> fills with \<open>value_counts()[0]\<close>. The counts are a series labelled by
  the values of the column. On labels that are all texts the key 0 is read as a
  position, and it is the first count that comes back, not a value of the column
  (IndexError when there is no count at all). On labels that are all numbers it is read
  as a label (KeyError when no value is 0). Where the cells do not tell, the library
  says which of the two it is.
\<close>

definition is_num :: "cell \<Rightarrow> bool" where
  "is_num c = (case c of Num _ \<Rightarrow> True | _ \<Rightarrow> False)"

definition is_text :: "cell \<Rightarrow> bool" where
  "is_text c = (case c of Text _ \<Rightarrow> True | _ \<Rightarrow> False)"

definition counts_item0 :: "pandas \<Rightarrow> cell list \<Rightarrow> (cell \<times> nat) list \<Rightarrow> error + nat" where
  "counts_item0 lib cs vc =
     (let by_label =
            (if vc \<noteq> [] \<and> list_all (\<lambda>e. is_text (fst e)) vc then False
             else if vc \<noteq> [] \<and> list_all (\<lambda>e. is_num (fst e)) vc then True
             else key_as_label lib cs)
      in if by_label
         then (case map_of vc (Num 0) of None \<Rightarrow> Inl (KeyError ''0'') | Some n \<Rightarrow> Inr n)
         else (case vc of [] \<Rightarrow> Inl IndexError | e # _ \<Rightarrow> Inr (snd e)))"

definition get_mode :: "pandas \<Rightarrow> dataframe \<Rightarrow> string \<Rightarrow> error + cell list" where
  "get_mode lib df column =
     bindE (get_col df column) (\<lambda>cs.
     bindE (counts_item0 lib cs (value_counts lib cs)) (\<lambda>n.
       Inr (fillna (Num (of_nat n)) cs)))"

text \<open>
  Shorthand for the statements below: the cells of a column over the rows whose zipcode
  equals \<open>z\<close>, and the first value of the value counts of a series (null when there
  is none).
\<close>

abbreviation peers :: "cell list \<Rightarrow> cell list \<Rightarrow> cell \<Rightarrow> cell list" where
  "peers zs cs z \<equiv> sel (map (\<lambda>z'. cell_eq z' z) zs) cs"

abbreviation top_value :: "pandas \<Rightarrow> cell list \<Rightarrow> cell" where
  "top_value lib xs \<equiv> (case value_counts lib xs of [] \<Rightarrow> Null | e # _ \<Rightarrow> fst e)"

text \<open>A loop whose body may raise: it stops at the first error.\<close>

fun foldE :: "('a \<Rightarrow> 'b \<Rightarrow> error + 'b) \<Rightarrow> 'a list \<Rightarrow> 'b \<Rightarrow> error + 'b" where
  "foldE f [] b = Inr b"
| "foldE f (x # xs) b = bindE (f x b) (foldE f xs)"

fun mapE :: "('a \<Rightarrow> error + 'b) \<Rightarrow> 'a list \<Rightarrow> error + 'b list" where
  "mapE f [] = Inr []"
| "mapE f (x # xs) = bindE (f x) (\<lambda>y. bindE (mapE f xs) (\<lambda>ys. Inr (y # ys)))"

text \<open>
  \<open>dataframe.drop(names, axis=1)\<close> with names given by the caller: KeyError when one
  of them is not a column, and then nothing is dropped.
\<close>

definition drop_labels :: "string list \<Rightarrow> dataframe \<Rightarrow> error + dataframe" where
  "drop_labels ns df =
     (case filter (\<lambda>n. n \<notin> set (col_names df)) ns of
        [] \<Rightarrow> Inr (drop_cols ns df)
      | n # _ \<Rightarrow> Inl (KeyError n))"

section \<open>Categorical columns\<close>

text \<open>
  \<open>handle_categorical\<close>, in its two parts. Lines 220 to 237: the rows without a
  zipcode and the two redundant columns are dropped, the summary is filled with a
  keyword, and the modes are imputed. Every \<open>drop\<close> returns a new frame, so the frame
  of the caller is not written to.
\<close>

definition impute_categorical :: "pandas \<Rightarrow> dataframe \<Rightarrow> error + dataframe" where
  "impute_categorical lib dataframe =
     bindE (get_col dataframe ''zipcode'') (\<lambda>zs.
     let df1 = drop_rows (sel (map isna zs) (index dataframe)) dataframe in
     bindE (drop_labels [''host_location'', ''neighbourhood''] df1) (\<lambda>df2.
     bindE (get_col df2 ''summary'') (\<lambda>sm.
     let df3 = set_col ''summary'' (fillna (Text ''missing'') sm) df2 in
     bindE (foldE (\<lambda>column df. bindE (get_mode lib df column) (\<lambda>vs. Inr (set_col column vs df)))
              [''property_type'', ''host_response_time''] df3) (\<lambda>df4.
     foldE (\<lambda>column df. get_mode_by_zip lib df column)
              [''market'', ''host_neighbourhood'', ''city''] df4))))"

text \<open>
  Lines 239 to 252: the rows still null in host_neighbourhood are dropped, then those
  still null in city, and the frame is returned.
\<close>

definition drop_unresolved :: "dataframe \<Rightarrow> error + dataframe" where
  "drop_unresolved df5 =
     bindE (get_col df5 ''host_neighbourhood'') (\<lambda>hn.
     let df6 = drop_rows (sel (map isna hn) (index df5)) df5 in
     bindE (get_col df6 ''city'') (\<lambda>ct.
     Inr (drop_rows (sel (map isna ct) (index df6)) df6)))"

definition handle_categorical :: "pandas \<Rightarrow> dataframe \<Rightarrow> error + dataframe" where
  "handle_categorical lib dataframe = bindE (impute_categorical lib dataframe) drop_unresolved"

section \<open>Numeric columns\<close>

text \<open>
  The dtype of a column is read off its cells: a column without a text cell is numeric
  (float64, nulls being NaN), as pandas infers it when the frame is read.
  \<open>select_dtypes\<close> is modelled for the two types the docstring names.
\<close>

definition is_number_col :: "cell list \<Rightarrow> bool" where
  "is_number_col cs = list_all (\<lambda>c. \<not> is_text c) cs"

definition select_dtype :: "string \<Rightarrow> cell list \<Rightarrow> bool" where
  "select_dtype column_type cs =
     (if column_type = ''number'' then is_number_col cs
      else if column_type = ''object'' then \<not> is_number_col cs
      else False)"

definition columns_missing_list :: "dataframe \<Rightarrow> string \<Rightarrow> string list" where
  "columns_missing_list df column_type =
     map fst (filter (\<lambda>k. select_dtype column_type (snd k) \<and> 0 < count_nulls (snd k)) (columns df))"

text \<open>\<open>series.dropna()\<close> of a numeric column: its numbers.\<close>

definition dropna :: "cell list \<Rightarrow> rat list" where
  "dropna cs = concat (map (\<lambda>c. case c of Num x \<Rightarrow> [x] | _ \<Rightarrow> []) cs)"

text \<open>
  \<open>np.median\<close> and \<open>np.mean\<close>, functions of numpy: on an empty array both return
  NaN (with a warning) and raise nothing.
\<close>

definition np_median :: "rat list \<Rightarrow> cell" where
  "np_median xs =
     (if xs = [] then Null
      else let s = sort xs; n = length s
           in if odd n then Num (s ! (n div 2))
              else Num ((s ! (n div 2 - 1) + s ! (n div 2)) / 2))"

definition np_mean :: "rat list \<Rightarrow> cell" where
  "np_mean xs = (if xs = [] then Null else Num (sum_list xs / of_nat (length xs)))"

definition handle_numeric :: "dataframe \<Rightarrow> string \<Rightarrow> error + dataframe" where
  "handle_numeric dataframe method =
     (let func = (if method = ''median'' then np_median else np_mean);
          columns = columns_missing_list dataframe ''number''
      in foldE (\<lambda>column df.
                  bindE (get_col df column) (\<lambda>cs.
                    Inr (set_col column (fillna (func (dropna cs)) cs) df)))
               columns dataframe)"

section \<open>Numeric normalisation\<close>

text \<open>
  \<open>money_to_numeric\<close> applies \<open>x[1:].replace(",", "")\<close> to every cell: a cell that is
  not a string (a null is a float) cannot be sliced, which is a TypeError.
\<close>

definition money_to_numeric :: "cell list \<Rightarrow> error + cell list" where
  "money_to_numeric series =
     mapE (\<lambda>x. case x of Text s \<Rightarrow> Inr (Text (filter (\<lambda>ch. ch \<noteq> CHR '','') (drop 1 s)))
                         | _ \<Rightarrow> Inl TypeError) series"

text \<open>
  \<open>percentage_to_numeric\<close> uses the \<open>.str\<close> accessor, which a numeric column does not
  have (AttributeError); in a column of strings it leaves a null as it is and makes a
  cell that is not a string null.
\<close>

definition percentage_to_numeric :: "cell list \<Rightarrow> error + cell list" where
  "percentage_to_numeric series =
     (if is_number_col series then Inl AttributeError
      else Inr (map (\<lambda>x. case x of Text s \<Rightarrow> Text (filter (\<lambda>ch. ch \<noteq> CHR ''%'') s)
                                   | _ \<Rightarrow> Null) series))"

text \<open>
  \<open>pd.to_numeric\<close>, a function of pandas: the empty string becomes NaN, another string
  is parsed (ValueError when it is no number), a null or a number is kept.
\<close>

definition to_numeric :: "pandas \<Rightarrow> cell list \<Rightarrow> error + cell list" where
  "to_numeric lib series =
     mapE (\<lambda>x. case x of
                 Text s \<Rightarrow> (if s = [] then Inr Null
                            else case parse_number lib s of
                                   None \<Rightarrow> Inl (ValueError s)
                                 | Some r \<Rightarrow> Inr (Num r))
               | c \<Rightarrow> Inr c) series"

section \<open>Redundant data\<close>

text \<open>
  \<open>drop_duplicates\<close> keeps the first of the rows that agree in every column (a null
  agreeing with a null), with its label.
\<close>

definition drop_duplicates :: "dataframe \<Rightarrow> dataframe" where
  "drop_duplicates df =
     keep_rows (map (\<lambda>p. row_cells df p \<notin> set (map (row_cells df) [0..<p]))
                    [0..<length (index df)]) df"

text \<open>
  \<open>handle_repetitive_data\<close>: each of the four columns is dropped when present, the
  KeyError of an absent one being caught.
\<close>

definition handle_repetitive_data :: "dataframe \<Rightarrow> error + dataframe" where
  "handle_repetitive_data dataframe =
     (let columns_to_drop = [''experiences_offered'', ''host_listings_count'',
                             ''neighbourhood_group_cleansed'', ''jurisdiction_names'']
      in bindE (foldE (\<lambda>column df. case drop_labels [column] df of
                                         Inl (KeyError _) \<Rightarrow> Inr df
                                       | res \<Rightarrow> res)
                      columns_to_drop dataframe)
           (\<lambda>df. Inr (drop_duplicates df)))"

section \<open>The pipeline on the store\<close>

text \<open>
  A procedure takes the store and returns it with a value or the error raised; what it
  wrote before raising stays written.
\<close>

type_synonym 'a proc = "store \<Rightarrow> store \<times> (error + 'a)"

definition bindS :: "'a proc \<Rightarrow> ('a \<Rightarrow> 'b proc) \<Rightarrow> 'b proc" where
  "bindS m f s = (case m s of (s', Inl e) \<Rightarrow> (s', Inl e) | (s', Inr x) \<Rightarrow> f x s')"

definition in_place :: "nat \<Rightarrow> (dataframe \<Rightarrow> error + dataframe) \<Rightarrow> nat proc" where
  "in_place r f s = (case f (s ! r) of Inl e \<Rightarrow> (s, Inl e) | Inr df \<Rightarrow> (s[r := df], Inr r))"

definition fresh :: "nat \<Rightarrow> (dataframe \<Rightarrow> error + dataframe) \<Rightarrow> nat proc" where
  "fresh r f s = (case f (s ! r) of Inl e \<Rightarrow> (s, Inl e) | Inr df \<Rightarrow> (s @ [df], Inr (length s)))"

fun forS :: "'a list \<Rightarrow> ('a \<Rightarrow> nat proc) \<Rightarrow> nat \<Rightarrow> nat proc" where
  "forS [] body r s = (s, Inr r)"
| "forS (x # xs) body r s = bindS (body x) (\<lambda>_. forS xs body r) s"

text \<open>
  \<open>handle_repetitive_data\<close> (\<open>inplace=True\<close>) and \<open>handle_numeric\<close>
  (\<open>dataframe[column] = ...\<close>) write into the frame they are given and return it;
  \<open>handle_categorical\<close> returns a new frame.
\<close>

definition handle_repetitive_data_st :: "nat \<Rightarrow> nat proc" where
  "handle_repetitive_data_st r = in_place r handle_repetitive_data"

definition handle_numeric_st :: "nat \<Rightarrow> string \<Rightarrow> nat proc" where
  "handle_numeric_st r method = in_place r (\<lambda>df. handle_numeric df method)"

definition handle_categorical_st :: "pandas \<Rightarrow> nat \<Rightarrow> nat proc" where
  "handle_categorical_st lib r = fresh r (handle_categorical lib)"

text \<open>
  One pass of the conversion loops of \<open>clean_data\<close>:
  \<open>dataframe[column] = pd.to_numeric(convert(dataframe[column]))\<close> with its KeyError
  caught, any other error raised.
\<close>

definition convert_column ::
  "(cell list \<Rightarrow> error + cell list) \<Rightarrow> string \<Rightarrow> dataframe \<Rightarrow> error + dataframe" where
  "convert_column conv column df =
     (case bindE (get_col df column) conv of
        Inl (KeyError _) \<Rightarrow> Inr df
      | Inl e \<Rightarrow> Inl e
      | Inr vs \<Rightarrow> Inr (set_col column vs df))"

definition clean_data :: "pandas \<Rightarrow> nat \<Rightarrow> nat proc" where
  "clean_data lib r =
     (let money_to_numeric_cols = [''price'', ''extra_people''];
          perc_to_numeric_cols = [''host_response_rate'', ''host_acceptance_rate'']
      in bindS (forS money_to_numeric_cols
                  (\<lambda>column. in_place r
                     (convert_column (\<lambda>cs. bindE (money_to_numeric cs) (to_numeric lib)) column)) r)
           (\<lambda>_. bindS (forS perc_to_numeric_cols
                  (\<lambda>column. in_place r
                     (convert_column (\<lambda>cs. bindE (percentage_to_numeric cs) (to_numeric lib)) column)) r)
           (\<lambda>_. bindS (handle_repetitive_data_st r)
           (\<lambda>r1. bindS (handle_numeric_st r1 ''median'')
           (\<lambda>r2. handle_categorical_st lib r2)))))"

text \<open>
  For the statement of what a run leaves in the store: the steps of \<open>clean_data\<close>
  that write into the frame given, in their order, and the outcome of running such
  steps on a frame, which is the frame reached by the steps before the first that
  raises, with the error of that one.
\<close>

definition in_place_steps :: "pandas \<Rightarrow> (dataframe \<Rightarrow> error + dataframe) list" where
  "in_place_steps lib =
     map (convert_column (\<lambda>cs. bindE (money_to_numeric cs) (to_numeric lib)))
         [''price'', ''extra_people''] @
     map (convert_column (\<lambda>cs. bindE (percentage_to_numeric cs) (to_numeric lib)))
         [''host_response_rate'', ''host_acceptance_rate''] @
     [handle_repetitive_data, (\<lambda>df. handle_numeric df ''median'')]"

fun run_steps ::
  "(dataframe \<Rightarrow> error + dataframe) list \<Rightarrow> dataframe \<Rightarrow> dataframe \<times> error option" where
  "run_steps [] df = (df, None)"
| "run_steps (f # fs) df = (case f df of Inl e \<Rightarrow> (df, Some e) | Inr df' \<Rightarrow> run_steps fs df')"

section \<open>A parser of numbers\<close>

text \<open>
  A parser of unsigned decimal numerals, digits with an optional fraction, for the
  examples.
\<close>

definition digit_of :: "char \<Rightarrow> nat option" where
  "digit_of c = map_of (zip ''0123456789'' [0, 1, 2, 3, 4, 5, 6, 7, 8, 9]) c"

fun digits_to_nat :: "string \<Rightarrow> nat \<Rightarrow> nat option" where
  "digits_to_nat [] acc = Some acc"
| "digits_to_nat (c # cs) acc =
     (case digit_of c of None \<Rightarrow> None | Some d \<Rightarrow> digits_to_nat cs (10 * acc + d))"

definition parse_decimal :: "string \<Rightarrow> rat option" where
  "parse_decimal s =
     (let ip = takeWhile (\<lambda>c. c \<noteq> CHR ''.'') s;
          fp = drop 1 (dropWhile (\<lambda>c. c \<noteq> CHR ''.'') s)
      in if ip = [] \<and> fp = [] then None
         else (case (digits_to_nat ip 0, digits_to_nat fp 0) of
                 (Some i, Some f) \<Rightarrow> Some (of_nat i + of_nat f / 10 ^ length fp)
               | _ \<Rightarrow> None))"

text \<open>
  A library for the examples: the counts in a stable sort (values of the same count in
  the order of their first occurrence), the key 0 read as a label where the cells do
  not tell, and the parser above.
\<close>

definition stable_lib :: pandas where
  "stable_lib =
     \<lparr>order_counts = sort_key (\<lambda>e. - int (snd e)),
      key_as_label = (\<lambda>cs. True),
      parse_number = parse_decimal\<rparr>"

section \<open>Example frames\<close>

text \<open>
  A frame of two listings as read from the file, the same frame after the steps of
  \<open>clean_data\<close> that work in place, and the frame \<open>clean_data\<close> returns for it.
\<close>

abbreviation listings_raw :: dataframe where
  "listings_raw \<equiv>
     \<lparr>index = [3, 4],
      columns = [(''price'', [Text ''$1,200'', Text ''$80'']),
                 (''zipcode'', [Text ''02134'', Text ''02135'']),
                 (''host_location'', [Text ''x'', Text ''y'']),
                 (''neighbourhood'', [Null, Null]),
                 (''summary'', [Null, Text ''s'']),
                 (''property_type'', [Text ''House'', Text ''House'']),
                 (''host_response_time'', [Text ''fast'', Text ''fast'']),
                 (''market'', [Text ''Boston'', Text ''Boston'']),
                 (''host_neighbourhood'', [Text ''A'', Null]),
                 (''city'', [Text ''Boston'', Text ''Boston''])]\<rparr>"

abbreviation listings_in_place :: dataframe where
  "listings_in_place \<equiv>
     \<lparr>index = [3, 4],
      columns = [(''price'', [Num 1200, Num 80]),
                 (''zipcode'', [Text ''02134'', Text ''02135'']),
                 (''host_location'', [Text ''x'', Text ''y'']),
                 (''neighbourhood'', [Null, Null]),
                 (''summary'', [Null, Text ''s'']),
                 (''property_type'', [Text ''House'', Text ''House'']),
                 (''host_response_time'', [Text ''fast'', Text ''fast'']),
                 (''market'', [Text ''Boston'', Text ''Boston'']),
                 (''host_neighbourhood'', [Text ''A'', Null]),
                 (''city'', [Text ''Boston'', Text ''Boston''])]\<rparr>"

abbreviation listings_clean :: dataframe where
  "listings_clean \<equiv>
     \<lparr>index = [3],
      columns = [(''price'', [Num 1200]),
                 (''zipcode'', [Text ''02134'']),
                 (''summary'', [Text ''missing'']),
                 (''property_type'', [Text ''House'']),
                 (''host_response_time'', [Text ''fast'']),
                 (''market'', [Text ''Boston'']),
                 (''host_neighbourhood'', [Text ''A'']),
                 (''city'', [Text ''Boston''])]\<rparr>"

text \<open>
  Two listings without a price, the second with no host_neighbourhood and a zipcode of
  its own, and the same frame after the imputation of \<open>handle_categorical\<close>; and a
  frame with a null among its fees.
\<close>

abbreviation rooms_raw :: dataframe where
  "rooms_raw \<equiv>
     \<lparr>index = [3, 4],
      columns = [(''zipcode'', [Text ''02134'', Text ''02135'']),
                 (''host_location'', [Text ''x'', Text ''y'']),
                 (''neighbourhood'', [Null, Null]),
                 (''summary'', [Null, Text ''s'']),
                 (''property_type'', [Text ''House'', Text ''House'']),
                 (''host_response_time'', [Text ''fast'', Text ''fast'']),
                 (''market'', [Text ''Boston'', Text ''Boston'']),
                 (''host_neighbourhood'', [Text ''A'', Null]),
                 (''city'', [Text ''Boston'', Text ''Boston''])]\<rparr>"

abbreviation rooms_imputed :: dataframe where
  "rooms_imputed \<equiv>
     \<lparr>index = [3, 4],
      columns = [(''zipcode'', [Text ''02134'', Text ''02135'']),
                 (''summary'', [Text ''missing'', Text ''s'']),
                 (''property_type'', [Text ''House'', Text ''House'']),
                 (''host_response_time'', [Text ''fast'', Text ''fast'']),
                 (''market'', [Text ''Boston'', Text ''Boston'']),
                 (''host_neighbourhood'', [Text ''A'', Null]),
                 (''city'', [Text ''Boston'', Text ''Boston''])]\<rparr>"

abbreviation fees_raw :: dataframe where
  "fees_raw \<equiv>
     \<lparr>index = [3, 4],
      columns = [(''price'', [Text ''$1,200'', Text ''$80'']),
                 (''extra_people'', [Text ''$25'', Null])]\<rparr>"

section \<open>Expansion of a multi-valued column\<close>

text \<open>
  The frame \<open>get_df_from_column\<close> builds holds lists of tokens in its first column
  and integers in the others. \<open>resub\<close> stands for
  \<open>re.sub(pattern=pattern, repl="", string=...)\<close>, the removal of the pattern by the
  regular-expression library; \<open>sorted(set(...))\<close> orders the distinct tokens as
  strings.
\<close>

datatype xcell = Tokens "string list" | Ind nat

type_synonym xcolumn = "string \<times> xcell list"

record xframe =
  xindex :: "nat list"
  xcolumns :: "xcolumn list"

definition split_comma :: "string \<Rightarrow> string list" where
  "split_comma s =
     foldr (\<lambda>c acc. if c = CHR '','' then [] # acc else (c # hd acc) # tl acc) s [[]]"

definition split_by_pattern :: "(string \<Rightarrow> string) \<Rightarrow> string \<Rightarrow> string list" where
  "split_by_pattern resub string = split_comma (resub string)"

definition xget :: "xframe \<Rightarrow> string \<Rightarrow> error + xcell list" where
  "xget df c = (case map_of (xcolumns df) c of None \<Rightarrow> Inl (KeyError c) | Some vs \<Rightarrow> Inr vs)"

definition xset :: "string \<Rightarrow> xcell list \<Rightarrow> xframe \<Rightarrow> xframe" where
  "xset c vs df =
     (if c \<in> fst ` set (xcolumns df)
      then df\<lparr>xcolumns := map (\<lambda>k. if fst k = c then (c, vs) else k) (xcolumns df)\<rparr>
      else df\<lparr>xcolumns := xcolumns df @ [(c, vs)]\<rparr>)"

definition xdrop :: "string list \<Rightarrow> xframe \<Rightarrow> error + xframe" where
  "xdrop ns df =
     (case filter (\<lambda>n. n \<notin> fst ` set (xcolumns df)) ns of
        [] \<Rightarrow> Inr (df\<lparr>xcolumns := filter (\<lambda>k. fst k \<notin> set ns) (xcolumns df)\<rparr>)
      | n # _ \<Rightarrow> Inl (KeyError n))"

definition tokens_of :: "xcell \<Rightarrow> string list" where
  "tokens_of x = (case x of Tokens ts \<Rightarrow> ts | Ind _ \<Rightarrow> [])"

definition get_df_from_column ::
  "(string \<Rightarrow> string) \<Rightarrow> dataframe \<Rightarrow> string \<Rightarrow> error + xframe" where
  "get_df_from_column resub dataframe column =
     bindE (get_col dataframe column) (\<lambda>cs.
     bindE (mapE (\<lambda>x. case x of Text s \<Rightarrow> Inr (Tokens (split_by_pattern resub s))
                               | _ \<Rightarrow> Inl TypeError) cs) (\<lambda>lists.
     let df_column = \<lparr>xindex = index dataframe, xcolumns = [(column, lists)]\<rparr>;
         values_set = sort (remdups (concat (map tokens_of lists)))
     in
     bindE (foldE (\<lambda>value df.
                     bindE (xget df column) (\<lambda>cur.
                     bindE (mapE (\<lambda>x. case x of
                                          Tokens ts \<Rightarrow> Inr (Ind (if value \<in> set ts then 1 else 0))
                                        | Ind _ \<Rightarrow> Inl TypeError) cur) (\<lambda>vs.
                       Inr (xset value vs df))))
                  values_set df_column) (\<lambda>df1.
     bindE (xget df1 column) (\<lambda>cur.
     bindE (mapE (\<lambda>x. case x of Tokens ts \<Rightarrow> Inr (Ind (length ts))
                               | Ind _ \<Rightarrow> Inl TypeError) cur) (\<lambda>lens.
     let df2 = xset (''number_of_'' @ column) lens df1 in
     if column = ''amenities'' then
       (let column_to_drop = ['''', ''translation missing: en.hosting_amenity_49'',
                              ''translation missing: en.hosting_amenity_50'']
        in case xdrop column_to_drop df2 of
             Inl (KeyError _) \<Rightarrow> xdrop [hd column_to_drop] df2
           | res \<Rightarrow> res)
     else Inr df2)))))"

section \<open>Verification\<close>

subsection \<open>Threshold pruning\<close>

lemma sel_Nil [simp]: "sel [] xs = []" "sel m [] = []"
  by (simp_all add: sel_def)

lemma sel_Cons [simp]: "sel (b # m) (x # xs) = (if b then x # sel m xs else sel m xs)"
  by (simp add: sel_def)

lemma sel_map_map: "sel (map P xs) (map f xs) = map f (filter P xs)"
  by (induction xs) (auto simp: sel_def)

lemma map_nth_filter: "map (\<lambda>q. g (ps ! q)) [0..<length ps] = map g ps"
  by (rule nth_equalityI) auto

lemma index_keep_rows:
  "index (keep_rows (map P [0..<length (index df)]) df) = map (\<lambda>p. index df ! p) (filter P [0..<length (index df)])"
proof -
  have "sel (map P [0..<length (index df)]) (map (\<lambda>p. index df ! p) [0..<length (index df)]) =
        map (\<lambda>p. index df ! p) (filter P [0..<length (index df)])"
    by (rule sel_map_map)
  then show ?thesis by (simp add: keep_rows_def map_nth)
qed

lemma columns_keep_rows:
  assumes "list_all (\<lambda>c. length (snd c) = length (index df)) (columns df)"
  shows "columns (keep_rows (map P [0..<length (index df)]) df) =
         map (\<lambda>c. (fst c, map (\<lambda>p. snd c ! p) (filter P [0..<length (index df)]))) (columns df)"
proof -
  have "sel (map P [0..<length (index df)]) (snd c) = map (\<lambda>p. snd c ! p) (filter P [0..<length (index df)])"
    if "c \<in> set (columns df)" for c
  proof -
    from that assms have len: "length (snd c) = length (index df)" by (simp add: list_all_iff)
    have "sel (map P [0..<length (index df)]) (map (\<lambda>p. snd c ! p) [0..<length (index df)]) =
        map (\<lambda>p. snd c ! p) (filter P [0..<length (index df)])"
      by (rule sel_map_map)
    with len show ?thesis using map_nth [of "snd c"] by simp
  qed
  then show ?thesis by (simp add: keep_rows_def)
qed

lemma rows_of_keep_rows:
  assumes "list_all (\<lambda>c. length (snd c) = length (index df)) (columns df)"
  shows "rows_of (keep_rows (map P [0..<length (index df)]) df) =
         map (\<lambda>p. (index df ! p, row_cells df p)) (filter P [0..<length (index df)])"
proof -
  let ?ps = "filter P [0..<length (index df)]"
  let ?df = "keep_rows (map P [0..<length (index df)]) df"
  have "rows_of ?df = map (\<lambda>q. (index df ! (?ps ! q), row_cells df (?ps ! q))) [0..<length ?ps]"
    unfolding rows_of_def row_cells_def
    by (simp add: index_keep_rows columns_keep_rows [OF assms] comp_def)
  also have "\<dots> = map (\<lambda>p. (index df ! p, row_cells df p)) ?ps"
    by (rule map_nth_filter)
  finally show ?thesis .
qed

lemma drop_rows_mask:
  assumes "distinct (index df)"
  shows "drop_rows (sel (map B [0..<length (index df)]) (index df)) df =
         keep_rows (map (\<lambda>p. \<not> B p) [0..<length (index df)]) df"
proof -
  let ?N = "length (index df)"
  let ?L = "sel (map B [0..<?N]) (index df)"
  have L: "?L = map (\<lambda>p. index df ! p) (filter B [0..<?N])"
    using sel_map_map [of B "[0..<?N]" "\<lambda>p. index df ! p"] by (simp add: map_nth)
  have "(index df ! p \<notin> set ?L) = (\<not> B p)" if "p < ?N" for p
    using that assms by (auto simp: L nth_eq_iff_index_eq)
  then have h1: "map (\<lambda>p. index df ! p \<notin> set ?L) [0..<?N] = map (\<lambda>p. \<not> B p) [0..<?N]"
    by simp
  have h2: "map (\<lambda>l. l \<notin> set ?L) (index df) = map (\<lambda>p. index df ! p \<notin> set ?L) [0..<?N]"
    by (rule nth_equalityI) auto
  show ?thesis unfolding drop_rows_def h2 h1 ..
qed

lemma drop_missing_rows:
  fixes quot :: "nat \<Rightarrow> nat \<Rightarrow> 'f::linorder"
  assumes "wf_df df"
  shows "rows_of (drop_missing quot df True t) =
         filter (\<lambda>r. quot (count_nulls (snd r)) (length (columns df)) \<le> t) (rows_of df)"
proof -
  let ?N = "length (index df)" and ?n = "length (columns df)"
  let ?B = "\<lambda>p. quot (count_nulls (row_cells df p)) ?n > t"
  from assms have d: "distinct (index df)"
    and l: "list_all (\<lambda>c. length (snd c) = length (index df)) (columns df)"
    by (simp_all add: wf_df_def)
  have "drop_missing quot df True t = drop_rows (sel (map ?B [0..<?N]) (index df)) df"
    by (simp add: drop_missing_def row_nulls_def comp_def)
  also have "\<dots> = keep_rows (map (\<lambda>p. \<not> ?B p) [0..<?N]) df"
    by (rule drop_rows_mask [OF d])
  finally have "rows_of (drop_missing quot df True t) =
      map (\<lambda>p. (index df ! p, row_cells df p)) (filter (\<lambda>p. \<not> ?B p) [0..<?N])"
    by (simp add: rows_of_keep_rows [OF l])
  also have "\<dots> = filter (\<lambda>r. quot (count_nulls (snd r)) ?n \<le> t) (rows_of df)"
    by (simp add: rows_of_def filter_map comp_def not_less)
  finally show ?thesis .
qed

lemma col_names_keep_rows: "col_names (keep_rows m df) = col_names df"
  by (simp add: col_names_def keep_rows_def comp_def)

lemma drop_missing_rows_names:
  fixes quot :: "nat \<Rightarrow> nat \<Rightarrow> 'f::linorder"
  shows "col_names (drop_missing quot df True t) = col_names df"
  by (simp add: drop_missing_def drop_rows_def col_names_keep_rows Let_def)

lemma drop_cols_mask:
  assumes "distinct (map fst cs)"
  shows "filter (\<lambda>c. fst c \<notin> set (sel (map B cs) (map fst cs))) cs = filter (\<lambda>c. \<not> B c) cs"
proof -
  have L: "sel (map B cs) (map fst cs) = map fst (filter B cs)" by (rule sel_map_map)
  have "(fst c \<notin> set (map fst (filter B cs))) = (\<not> B c)" if "c \<in> set cs" for c
  proof -
    have "c' = c" if "c' \<in> set cs" "fst c' = fst c" for c'
      using assms that \<open>c \<in> set cs\<close> by (meson distinct_map inj_onD)
    with that show ?thesis by auto
  qed
  then show ?thesis unfolding L by (intro filter_cong refl)
qed

lemma drop_missing_cols:
  fixes quot :: "nat \<Rightarrow> nat \<Rightarrow> 'f::linorder"
  assumes "wf_df df"
  shows "columns (drop_missing quot df False t) =
         filter (\<lambda>c. quot (count_nulls (snd c)) (length (index df)) \<le> t) (columns df)"
    and "index (drop_missing quot df False t) = index df"
proof -
  from assms have d: "distinct (map fst (columns df))" by (simp add: wf_df_def col_names_def)
  show "columns (drop_missing quot df False t) =
         filter (\<lambda>c. quot (count_nulls (snd c)) (length (index df)) \<le> t) (columns df)"
    using drop_cols_mask [OF d, of "\<lambda>c. quot (count_nulls (snd c)) (length (index df)) > t"]
    by (simp add: drop_missing_def drop_cols_def col_nulls_def col_names_def comp_def not_less)
  show "index (drop_missing quot df False t) = index df"
    by (simp add: drop_missing_def drop_cols_def Let_def)
qed

text \<open>
  C4. On a frame with distinct row labels, distinct column names and columns as long as
  the index, \<open>drop_missing\<close> along the rows returns exactly the rows whose null
  fraction (null cells of the row over the number of columns) is at most the threshold,
  in their order, with their labels and cells as they were, and keeps the columns; along
  the columns it returns exactly the columns whose null fraction (null cells of the
  column over the number of rows) is at most the threshold, unchanged, and keeps the
  index. So nothing returned exceeds the threshold and nothing within it is removed.
\<close>

theorem drop_missing_threshold:
  fixes quot :: "nat \<Rightarrow> nat \<Rightarrow> 'f::linorder"
  assumes "wf_df df"
  shows "(0 < length (columns df) \<longrightarrow>
            rows_of (drop_missing quot df True t) =
              filter (\<lambda>r. quot (count_nulls (snd r)) (length (columns df)) \<le> t) (rows_of df) \<and>
            col_names (drop_missing quot df True t) = col_names df) \<and>
         (0 < length (index df) \<longrightarrow>
            columns (drop_missing quot df False t) =
              filter (\<lambda>c. quot (count_nulls (snd c)) (length (index df)) \<le> t) (columns df) \<and>
            index (drop_missing quot df False t) = index df)"
  using assms by (simp add: drop_missing_rows drop_missing_rows_names drop_missing_cols)

theorem drop_missing_threshold_witness:
  "rows_of (drop_missing (\<lambda>c n. (of_nat c / of_nat n :: rat))
      \<lparr>index = [10, 11],
       columns = [(''a'', [Null, Num 1]), (''b'', [Null, Text ''x'']), (''c'', [Num 2, Null])]\<rparr>
      True (1 / 2)) = [(11, [Num 1, Text ''x'', Null])] \<and>
   columns (drop_missing (\<lambda>c n. (of_nat c / of_nat n :: rat))
      \<lparr>index = [10, 11],
       columns = [(''a'', [Null, Num 1]), (''b'', [Null, Text ''x'']), (''c'', [Num 2, Null])]\<rparr>
      False (1 / 2)) = [(''a'', [Null, Num 1]), (''b'', [Null, Text ''x'']), (''c'', [Num 2, Null])]"
proof -
  let ?df = "\<lparr>index = [10, 11],
       columns = [(''a'', [Null, Num 1]), (''b'', [Null, Text ''x'']), (''c'', [Num 2, Null])]\<rparr>"
  have wf: "wf_df ?df" by (simp add: wf_df_def col_names_def)
  have rows: "rows_of ?df = [(10, [Null, Null, Num 2]), (11, [Num 1, Text ''x'', Null])]"
    by (simp add: rows_of_def row_cells_def upt_rec)
  show ?thesis
    using drop_missing_threshold [OF wf, of "\<lambda>c n. (of_nat c / of_nat n :: rat)" "1 / 2"]
    by (simp add: rows count_nulls_def isna_def)
qed

text \<open>
  C10. \<open>drop_missing\<close> writes to no frame that exists: after the call every address of
  the store, the argument's among them, holds the frame it held before, and the result
  is a frame at a new address.
\<close>

theorem drop_missing_st_frame:
  fixes quot :: "nat \<Rightarrow> nat \<Rightarrow> 'f::linorder"
  assumes "r < length s"
  shows "(case drop_missing_st quot r row t s of (s', r') \<Rightarrow>
            s' ! r = s ! r \<and> (\<forall>a < length s. s' ! a = s ! a) \<and> r' \<noteq> r \<and>
            s' ! r' = drop_missing quot (s ! r) row t)"
  using assms by (auto simp: drop_missing_st_def alloc_def nth_append)

theorem drop_missing_st_frame_witness:
  "(case drop_missing_st (\<lambda>c n. (of_nat c / of_nat n :: rat)) 0 False (1 / 5)
          [\<lparr>index = [3, 4], columns = [(''a'', [Null, Num 1]), (''b'', [Num 2, Num 3])]\<rparr>] of
      (s', r') \<Rightarrow>
        s' ! 0 = \<lparr>index = [3, 4], columns = [(''a'', [Null, Num 1]), (''b'', [Num 2, Num 3])]\<rparr> \<and>
        r' = 1 \<and> s' ! r' = \<lparr>index = [3, 4], columns = [(''b'', [Num 2, Num 3])]\<rparr>)"
proof -
  have ev: "drop_missing (\<lambda>c n. (of_nat c / of_nat n :: rat))
      \<lparr>index = [3, 4], columns = [(''a'', [Null, Num 1]), (''b'', [Num 2, Num 3])]\<rparr> False (1 / 5) =
      \<lparr>index = [3, 4], columns = [(''b'', [Num 2, Num 3])]\<rparr>"
    by (simp add: drop_missing_def drop_cols_def col_nulls_def col_names_def count_nulls_def
        isna_def Let_def)
  show ?thesis
    using drop_missing_st_frame [of 0
      "[\<lparr>index = [3, 4], columns = [(''a'', [Null, Num 1]), (''b'', [Num 2, Num 3])]\<rparr>]"
      "\<lambda>c n. (of_nat c / of_nat n :: rat)" False "1 / 5"]
    by (simp add: drop_missing_st_def alloc_def ev)
qed

subsection \<open>Mode imputation by zipcode\<close>

lemma falling_hd:
  assumes "falling_order lib" "order_counts lib xs = x # r"
  shows "x \<in> set xs \<and> (\<forall>y\<in>set xs. snd y \<le> snd x)"
proof -
  from assms(1) have m: "mset (order_counts lib xs) = mset xs"
    and s: "sorted_wrt (\<lambda>a b. snd b \<le> snd a) (order_counts lib xs)"
    by (simp_all add: falling_order_def)
  from m have e: "set (x # r) = set xs" using assms(2) by (metis mset_eq_setD)
  from e have "x \<in> set xs" by auto
  moreover have "snd y \<le> snd x" if "y \<in> set xs" for y
  proof -
    from that e have "y = x \<or> y \<in> set r" by auto
    with s assms(2) show ?thesis by auto
  qed
  ultimately show ?thesis by blast
qed

lemma falling_Nil:
  assumes "falling_order lib"
  shows "order_counts lib xs = [] \<longleftrightarrow> xs = []"
proof -
  from assms have "mset (order_counts lib xs) = mset xs" by (simp add: falling_order_def)
  then show ?thesis by (metis mset_zero_iff)
qed

lemma falling_set:
  assumes "falling_order lib"
  shows "set (order_counts lib xs) = set xs"
proof -
  from assms have "mset (order_counts lib xs) = mset xs" by (simp add: falling_order_def)
  then show ?thesis by (rule mset_eq_setD)
qed

lemma falling_order_stable: "falling_order stable_lib"
proof -
  have "sorted_wrt (\<lambda>a b. snd b \<le> snd a) (sort_key (\<lambda>e. - int (snd e)) xs)"
    for xs :: "(cell \<times> nat) list"
  proof -
    have "sorted (map (\<lambda>e. - int (snd e)) (sort_key (\<lambda>e. - int (snd e)) xs))"
      by (rule sorted_sort_key)
    then show ?thesis by (simp add: sorted_map sorted_wrt_iff_nth_less)
  qed
  then show ?thesis by (simp add: falling_order_def stable_lib_def)
qed

lemma count_list_filter_nonnull:
  "w \<noteq> Null \<Longrightarrow> count_list (filter (\<lambda>c. \<not> isna c) cs) w = count_list cs w"
  by (induction cs) (auto simp: isna_def)

lemma value_counts_Nil:
  assumes "falling_order lib"
  shows "value_counts lib cs = [] \<longleftrightarrow> (\<forall>c\<in>set cs. c = Null)"
proof -
  let ?vs = "filter (\<lambda>c. \<not> isna c) cs"
  have "value_counts lib cs = [] \<longleftrightarrow> remdups (rev ?vs) = []"
    by (simp add: value_counts_def Let_def falling_Nil [OF assms])
  then have "value_counts lib cs = [] \<longleftrightarrow> ?vs = []" by simp
  then show ?thesis by (auto simp: filter_empty_conv isna_def)
qed

lemma value_counts_set:
  assumes "falling_order lib"
  shows "set (value_counts lib cs) = (\<lambda>v. (v, count_list cs v)) ` (set cs - {Null})"
proof -
  let ?vs = "filter (\<lambda>c. \<not> isna c) cs"
  have "set (value_counts lib cs) = (\<lambda>v. (v, count_list ?vs v)) ` set ?vs"
    by (simp add: value_counts_def Let_def falling_set [OF assms])
  also have "\<dots> = (\<lambda>v. (v, count_list cs v)) ` (set cs - {Null})"
  proof (rule image_cong)
    show "set ?vs = set cs - {Null}" by (auto simp: isna_def)
  next
    fix v assume "v \<in> set cs - {Null}"
    then show "(v, count_list ?vs v) = (v, count_list cs v)"
      by (simp add: count_list_filter_nonnull)
  qed
  finally show ?thesis .
qed

lemma value_counts_hd:
  assumes "falling_order lib" "value_counts lib cs = e # r"
  shows "fst e \<in> set cs \<and> fst e \<noteq> Null \<and> snd e = count_list cs (fst e) \<and>
         (\<forall>w. w \<noteq> Null \<longrightarrow> count_list cs w \<le> count_list cs (fst e))"
proof -
  let ?vs = "filter (\<lambda>c. \<not> isna c) cs"
  let ?L = "map (\<lambda>v. (v, count_list ?vs v)) (rev (remdups (rev ?vs)))"
  from assms(2) have "order_counts lib ?L = e # r"
    by (simp add: value_counts_def Let_def)
  from falling_hd [OF assms(1) this]
  have mem: "e \<in> set ?L" and mx: "\<forall>y\<in>set ?L. snd y \<le> snd e" by auto
  from mem have v: "fst e \<in> set ?vs" and n: "snd e = count_list ?vs (fst e)" by auto
  from v have nn: "fst e \<noteq> Null" and inn: "fst e \<in> set cs" by (auto simp: isna_def)
  have "count_list cs w \<le> count_list cs (fst e)" if "w \<noteq> Null" for w
  proof (cases "w \<in> set cs")
    case True
    with that have "w \<in> set ?vs" by (simp add: isna_def)
    then have "(w, count_list ?vs w) \<in> set ?L" by auto
    with mx have "count_list ?vs w \<le> snd e" by fastforce
    with n show ?thesis using that nn by (simp add: count_list_filter_nonnull)
  next
    case False
    then show ?thesis by (simp add: count_list_0_iff)
  qed
  with inn nn n show ?thesis by (simp add: count_list_filter_nonnull)
qed

lemma sel_update_False:
  "\<not> (p < length m \<and> m ! p) \<Longrightarrow> sel m (cs[p := v]) = sel m cs"
proof (induction m arbitrary: cs p)
  case Nil
  then show ?case by simp
next
  case (Cons b m)
  show ?case
  proof (cases cs)
    case Nil
    then show ?thesis by simp
  next
    case (Cons c cs')
    with Cons.prems Cons.IH show ?thesis by (cases p) auto
  qed
qed

lemma count_sel_update:
  "p < length cs \<Longrightarrow> length m = length cs \<Longrightarrow> m ! p \<Longrightarrow> cs ! p = Null \<Longrightarrow> w \<noteq> Null \<Longrightarrow>
   count_list (sel m (cs[p := v])) w = count_list (sel m cs) w + (if w = v then 1 else 0)"
proof (induction m arbitrary: cs p)
  case Nil
  then show ?case by simp
next
  case (Cons b m)
  then obtain c cs' where cs: "cs = c # cs'" by (cases cs) auto
  show ?case
  proof (cases p)
    case 0
    with Cons.prems cs show ?thesis by auto
  next
    case (Suc q)
    with Cons.prems cs Cons.IH [of q cs'] show ?thesis by auto
  qed
qed

lemma top_update:
  assumes fo: "falling_order lib"
    and "p < length cs" "length zs = length cs" "cs ! p = Null"
    and v: "v = top_value lib (peers zs cs (zs ! p))"
  shows "top_value lib (peers zs (cs[p := v]) z) = top_value lib (peers zs cs z)"
proof (cases "v = Null")
  case True
  with assms have "cs[p := v] = cs" by (metis list_update_id)
  then show ?thesis by simp
next
  case vnn: False
  show ?thesis
  proof (cases "cell_eq (zs ! p) z")
    case False
    with assms have "peers zs (cs[p := v]) z = peers zs cs z"
      by (intro sel_update_False) simp
    then show ?thesis by simp
  next
    case True
    then have z: "z = zs ! p" by (simp add: cell_eq_def)
    let ?m = "map (\<lambda>z'. cell_eq z' z) zs"
    let ?xs = "peers zs cs z" and ?ys = "peers zs (cs[p := v]) z"
    from vnn v z obtain e r where vc: "value_counts lib ?xs = e # r" and ev: "fst e = v"
      by (auto split: list.splits)
    note hx = value_counts_hd [OF fo vc]
    have cnt: "count_list ?ys w = count_list ?xs w + (if w = v then 1 else 0)" if "w \<noteq> Null" for w
      using assms True that by (intro count_sel_update) simp_all
    from cnt [of v] vnn have "count_list ?ys v > 0" by simp
    then have "v \<in> set ?ys" using count_list_0_iff [of "?ys" v] by auto
    with vnn have "value_counts lib ?ys \<noteq> []" by (auto simp: value_counts_Nil [OF fo])
    then obtain e' r' where vc': "value_counts lib ?ys = e' # r'"
      by (cases "value_counts lib ?ys") auto
    note hy = value_counts_hd [OF fo vc']
    have "fst e' = v"
    proof (rule ccontr)
      assume ne: "fst e' \<noteq> v"
      from hy have nn: "fst e' \<noteq> Null" by simp
      from hy vnn have "count_list ?ys v \<le> count_list ?ys (fst e')" by blast
      moreover from cnt [OF nn] ne have "count_list ?ys (fst e') = count_list ?xs (fst e')" by simp
      moreover from hx nn ev have "count_list ?xs (fst e') \<le> count_list ?xs v" by blast
      moreover from cnt [OF vnn] have "count_list ?ys v = count_list ?xs v + 1" by simp
      ultimately show False by simp
    qed
    with vc vc' ev show ?thesis by simp
  qed
qed

lemma get_col_mem: "get_col df c = Inr cs \<Longrightarrow> (c, cs) \<in> set (columns df)"
  by (auto simp: get_col_def split: option.splits dest: map_of_SomeD)

lemma get_col_names: "get_col df c = Inr cs \<Longrightarrow> c \<in> set (col_names df)"
  by (force simp: col_names_def dest: get_col_mem)

lemma get_col_unique:
  "distinct (col_names df) \<Longrightarrow> get_col df c = Inr cs \<Longrightarrow> k \<in> set (columns df) \<Longrightarrow> fst k = c \<Longrightarrow>
   snd k = cs"
  by (cases k) (auto simp: get_col_def col_names_def split: option.splits)

lemma map_of_replace:
  "map_of (map (\<lambda>k. if fst k = c then (c, vs) else k) xs) d =
     (if d = c then map_option (\<lambda>_. vs) (map_of xs c) else map_of xs d)"
  by (induction xs) auto

lemma get_col_set_col_same: "get_col (set_col c vs df) c = Inr vs"
proof (cases "c \<in> set (col_names df)")
  case True
  then obtain us where "map_of (columns df) c = Some us"
    by (auto simp: col_names_def dest: weak_map_of_SomeI)
  with True show ?thesis by (simp add: get_col_def set_col_def map_of_replace)
next
  case False
  then have "map_of (columns df) c = None" by (simp add: col_names_def map_of_eq_None_iff)
  with False show ?thesis by (simp add: get_col_def set_col_def map_add_def)
qed

lemma get_col_set_col_other: "d \<noteq> c \<Longrightarrow> get_col (set_col c vs df) d = get_col df d"
  by (auto simp: get_col_def set_col_def map_of_replace map_add_def split: option.splits)

lemma index_set_col [simp]: "index (set_col c vs df) = index df"
  by (simp add: set_col_def)

lemma col_names_set_col: "c \<in> set (col_names df) \<Longrightarrow> col_names (set_col c vs df) = col_names df"
  by (auto simp: set_col_def col_names_def comp_def intro!: map_cong)

lemma set_col_set_col:
  assumes "c \<in> set (col_names df)"
  shows "set_col c vs (set_col c us df) = set_col c vs df"
proof -
  have "c \<in> set (col_names (set_col c us df))" using assms by (simp add: col_names_set_col)
  then have "set_col c vs (set_col c us df) =
      (set_col c us df)\<lparr>columns := map (\<lambda>k. if fst k = c then (c, vs) else k) (columns (set_col c us df))\<rparr>"
    by (simp add: set_col_def [of c vs])
  also have "\<dots> = df\<lparr>columns := map (\<lambda>k. if fst k = c then (c, vs) else k) (columns df)\<rparr>"
    using assms by (simp add: set_col_def [of c us] comp_def cong: if_cong)
  also have "\<dots> = set_col c vs df" using assms by (simp add: set_col_def)
  finally show ?thesis .
qed

lemma zip_update_label:
  assumes "distinct idx" "p < length idx" "length cs = length idx"
  shows "map (\<lambda>lc. if fst lc = idx ! p then v else snd lc) (zip idx cs) = cs[p := v]"
  using assms by (intro nth_equalityI) (auto simp: nth_eq_iff_index_eq nth_list_update)

lemma loc_set_eq:
  assumes "distinct (index df)" "p < length (index df)" "distinct (col_names df)"
    and "get_col df column = Inr cs" "length cs = length (index df)"
  shows "loc_set (index df ! p) column v df = set_col column (cs[p := v]) df"
proof -
  have "(if fst k = column
         then (fst k, map (\<lambda>lc. if fst lc = index df ! p then v else snd lc) (zip (index df) (snd k)))
         else k) = (if fst k = column then (column, cs[p := v]) else k)"
    if "k \<in> set (columns df)" for k
    using get_col_unique [OF assms(3,4) that] zip_update_label [OF assms(1,2,5)] by auto
  then show ?thesis
    using get_col_names [OF assms(4)] by (simp add: loc_set_def set_col_def cong: map_cong)
qed

lemma search_similar_zip_eq:
  "get_col df column = Inr cs \<Longrightarrow> get_col df ''zipcode'' = Inr zs \<Longrightarrow>
   search_similar_zip lib df column z = Inr (top_value lib (peers zs cs z))"
  by (simp add: search_similar_zip_def bindE_def split: list.splits)

lemma impute_rows_inv:
  assumes "distinct (index df)" "distinct (col_names df)" "column \<noteq> ''zipcode''"
    and "get_col df ''zipcode'' = Inr zs" "length zs = length (index df)"
    and "get_col df column = Inr cs" "length cs = length (index df)"
    and "distinct ps" "\<forall>p\<in>set ps. p < length (index df) \<and> cs ! p = Null"
    and fo: "falling_order lib"
  shows "\<exists>cs'. impute_rows lib column (map (\<lambda>p. (index df ! p, zs ! p)) ps) df = Inr (set_col column cs' df) \<and>
           length cs' = length cs \<and>
           (\<forall>p < length cs. cs' ! p = (if p \<in> set ps then top_value lib (peers zs cs (zs ! p)) else cs ! p))"
  using assms(1-9)
proof (induction ps arbitrary: df cs)
  case Nil
  have "set_col column cs df = df"
    using get_col_names [OF Nil(6)] get_col_unique [OF Nil(2) Nil(6)]
    by (auto simp: set_col_def intro!: dataframe.equality map_idI)
  then show ?case by (intro exI [of _ cs]) simp
next
  case (Cons p ps)
  let ?v = "top_value lib (peers zs cs (zs ! p))"
  let ?cs1 = "cs[p := ?v]"
  let ?df1 = "set_col column ?cs1 df"
  from Cons.prems have p: "p < length (index df)" "cs ! p = Null" "p \<notin> set ps" by auto
  have cin: "column \<in> set (col_names df)" by (rule get_col_names [OF Cons.prems(6)])
  have step: "loc_set (index df ! p) column ?v df = ?df1"
    by (rule loc_set_eq [OF Cons.prems(1) p(1) Cons.prems(2) Cons.prems(6) Cons.prems(7)])
  have top1: "top_value lib (peers zs ?cs1 z) = top_value lib (peers zs cs z)" for z
    using p Cons.prems(5,7) by (intro top_update [OF fo]) simp_all
  have "\<exists>cs'. impute_rows lib column (map (\<lambda>p. (index ?df1 ! p, zs ! p)) ps) ?df1 = Inr (set_col column cs' ?df1) \<and>
           length cs' = length ?cs1 \<and>
           (\<forall>q < length ?cs1. cs' ! q = (if q \<in> set ps then top_value lib (peers zs ?cs1 (zs ! q)) else ?cs1 ! q))"
  proof (rule Cons.IH)
    show "distinct (index ?df1)" using Cons.prems(1) by simp
    show "distinct (col_names ?df1)" using Cons.prems(2) cin by (simp add: col_names_set_col)
    show "column \<noteq> ''zipcode''" by fact
    show "get_col ?df1 ''zipcode'' = Inr zs"
      using Cons.prems(3,4) by (simp add: get_col_set_col_other)
    show "length zs = length (index ?df1)" using Cons.prems(5) by simp
    show "get_col ?df1 column = Inr ?cs1" by (rule get_col_set_col_same)
    show "length ?cs1 = length (index ?df1)" using Cons.prems(7) by simp
    show "distinct ps" using Cons.prems(8) by simp
    show "\<forall>q\<in>set ps. q < length (index ?df1) \<and> ?cs1 ! q = Null"
    proof
      fix q assume q: "q \<in> set ps"
      with Cons.prems(8) have "q \<noteq> p" by auto
      with q Cons.prems(9) show "q < length (index ?df1) \<and> ?cs1 ! q = Null" by simp
    qed
  qed
  then obtain cs' where
    run: "impute_rows lib column (map (\<lambda>p. (index df ! p, zs ! p)) ps) ?df1 = Inr (set_col column cs' ?df1)"
    and len: "length cs' = length cs"
    and val: "\<forall>q < length cs. cs' ! q = (if q \<in> set ps then top_value lib (peers zs cs (zs ! q)) else ?cs1 ! q)"
    by (auto simp: top1)
  have "impute_rows lib column (map (\<lambda>p. (index df ! p, zs ! p)) (p # ps)) df = Inr (set_col column cs' df)"
    using search_similar_zip_eq [OF Cons.prems(6) Cons.prems(4), of lib "zs ! p"] step run cin
    by (simp add: bindE_def set_col_set_col)
  moreover have "\<forall>q < length cs. cs' ! q = (if q \<in> set (p # ps) then top_value lib (peers zs cs (zs ! q)) else cs ! q)"
    using val p Cons.prems(7) by (auto simp: nth_list_update)
  ultimately show ?case using len by blast
qed

lemma snapshot_eq:
  assumes "length zs = length idx" "length cs = length idx"
  shows "sel (map isna cs) (zip idx zs) =
         map (\<lambda>p. (idx ! p, zs ! p)) (filter (\<lambda>p. cs ! p = Null) [0..<length idx])"
proof -
  have a: "map isna cs = map (\<lambda>p. cs ! p = Null) [0..<length idx]"
    using assms by (intro nth_equalityI) (auto simp: isna_def)
  have b: "zip idx zs = map (\<lambda>p. (idx ! p, zs ! p)) [0..<length idx]"
    using assms by (intro nth_equalityI) auto
  show ?thesis unfolding a b by (rule sel_map_map)
qed

lemma get_mode_by_zip_cells:
  assumes "wf_df df" "column \<noteq> ''zipcode''"
    and "get_col df column = Inr cs" "get_col df ''zipcode'' = Inr zs"
    and fo: "falling_order lib"
  shows "\<exists>cs'. get_mode_by_zip lib df column = Inr (set_col column cs' df) \<and>
           length cs' = length cs \<and>
           (\<forall>p < length cs. cs' ! p =
              (if cs ! p = Null then top_value lib (peers zs cs (zs ! p)) else cs ! p))"
proof -
  from assms(1) have d: "distinct (index df)" "distinct (col_names df)"
    and l: "list_all (\<lambda>c. length (snd c) = length (index df)) (columns df)"
    by (simp_all add: wf_df_def)
  have lc: "length cs = length (index df)"
    using get_col_mem [OF assms(3)] l by (auto simp: list_all_iff)
  have lz: "length zs = length (index df)"
    using get_col_mem [OF assms(4)] l by (auto simp: list_all_iff)
  let ?ps = "filter (\<lambda>p. cs ! p = Null) [0..<length (index df)]"
  have "\<exists>cs'. impute_rows lib column (map (\<lambda>p. (index df ! p, zs ! p)) ?ps) df = Inr (set_col column cs' df) \<and>
           length cs' = length cs \<and>
           (\<forall>p < length cs. cs' ! p = (if p \<in> set ?ps then top_value lib (peers zs cs (zs ! p)) else cs ! p))"
    by (rule impute_rows_inv [OF d assms(2) assms(4) lz assms(3) lc _ _ fo]) auto
  then obtain cs' where
    run: "impute_rows lib column (map (\<lambda>p. (index df ! p, zs ! p)) ?ps) df = Inr (set_col column cs' df)"
    and len: "length cs' = length cs"
    and val: "\<forall>p < length cs. cs' ! p = (if p \<in> set ?ps then top_value lib (peers zs cs (zs ! p)) else cs ! p)"
    by blast
  have "get_mode_by_zip lib df column = Inr (set_col column cs' df)"
    using assms(3,4) run by (simp add: get_mode_by_zip_def bindE_def snapshot_eq [OF lz lc])
  moreover have "\<forall>p < length cs. cs' ! p =
              (if cs ! p = Null then top_value lib (peers zs cs (zs ! p)) else cs ! p)"
    using val lc by auto
  ultimately show ?thesis using len by blast
qed

text \<open>
  C1. On a frame with distinct row labels and column names, a zipcode column and
  another target column, \<open>get_mode_by_zip\<close> returns the frame with only the target
  column changed: a cell that was not null is as it was, and a cell that was null holds
  what \<open>search_similar_zip\<close> finds on the frame as it was before the call, whatever
  the loop has written by then. When some row of the same zipcode has a value, that is
  one of these values, occurring among them at least as often as every other; the null
  row adds nothing to the count, so these are the values of the other rows. Among
  values of the same greatest count the one taken is the one the sort of the library
  puts first in the counts of these rows, of which sort no more is assumed than that it
  sorts by falling count: the choice is a function of the rows of the zipcode as they
  were, and every null row of a zipcode receives the same value.
\<close>

theorem get_mode_by_zip_mode:
  assumes "falling_order lib" "wf_df df" "column \<noteq> ''zipcode''"
    and "get_col df column = Inr cs" "get_col df ''zipcode'' = Inr zs"
  shows "\<exists>cs'. get_mode_by_zip lib df column = Inr (set_col column cs' df) \<and>
           length cs' = length cs \<and>
           (\<forall>p < length cs.
              (cs ! p \<noteq> Null \<longrightarrow> cs' ! p = cs ! p) \<and>
              (cs ! p = Null \<longrightarrow>
                 search_similar_zip lib df column (zs ! p) = Inr (cs' ! p) \<and>
                 cs' ! p = top_value lib (peers zs cs (zs ! p)) \<and>
                 (\<forall>q < length cs. cs ! q = Null \<and> zs ! q = zs ! p \<longrightarrow> cs' ! q = cs' ! p) \<and>
                 ((\<exists>c\<in>set (peers zs cs (zs ! p)). c \<noteq> Null) \<longrightarrow>
                    cs' ! p \<noteq> Null \<and> cs' ! p \<in> set (peers zs cs (zs ! p)) \<and>
                    (\<forall>w. w \<noteq> Null \<longrightarrow>
                       count_list (peers zs cs (zs ! p)) w
                         \<le> count_list (peers zs cs (zs ! p)) (cs' ! p)))))"
proof -
  note fo = assms(1)
  from get_mode_by_zip_cells [OF assms(2-5) fo] obtain cs' where
    run: "get_mode_by_zip lib df column = Inr (set_col column cs' df)"
    and len: "length cs' = length cs"
    and val: "\<forall>p < length cs. cs' ! p =
              (if cs ! p = Null then top_value lib (peers zs cs (zs ! p)) else cs ! p)"
    by blast
  have "(cs ! p \<noteq> Null \<longrightarrow> cs' ! p = cs ! p) \<and>
        (cs ! p = Null \<longrightarrow>
           search_similar_zip lib df column (zs ! p) = Inr (cs' ! p) \<and>
           cs' ! p = top_value lib (peers zs cs (zs ! p)) \<and>
           (\<forall>q < length cs. cs ! q = Null \<and> zs ! q = zs ! p \<longrightarrow> cs' ! q = cs' ! p) \<and>
           ((\<exists>c\<in>set (peers zs cs (zs ! p)). c \<noteq> Null) \<longrightarrow>
              cs' ! p \<noteq> Null \<and> cs' ! p \<in> set (peers zs cs (zs ! p)) \<and>
              (\<forall>w. w \<noteq> Null \<longrightarrow>
                 count_list (peers zs cs (zs ! p)) w
                   \<le> count_list (peers zs cs (zs ! p)) (cs' ! p))))"
    if p: "p < length cs" for p
  proof (cases "cs ! p = Null")
    case False
    with val p show ?thesis by simp
  next
    case True
    let ?xs = "peers zs cs (zs ! p)"
    from val p True have v: "cs' ! p = top_value lib ?xs" by simp
    have s: "search_similar_zip lib df column (zs ! p) = Inr (cs' ! p)"
      using search_similar_zip_eq [OF assms(4,5), of lib "zs ! p"] v by simp
    have same: "\<forall>q < length cs. cs ! q = Null \<and> zs ! q = zs ! p \<longrightarrow> cs' ! q = cs' ! p"
      using val v by simp
    have "cs' ! p \<noteq> Null \<and> cs' ! p \<in> set ?xs \<and>
          (\<forall>w. w \<noteq> Null \<longrightarrow> count_list ?xs w \<le> count_list ?xs (cs' ! p))"
      if "\<exists>c\<in>set ?xs. c \<noteq> Null"
    proof -
      from that have "value_counts lib ?xs \<noteq> []" by (simp add: value_counts_Nil [OF fo])
      then obtain e r where vc: "value_counts lib ?xs = e # r"
        by (cases "value_counts lib ?xs") auto
      with v have "cs' ! p = fst e" by simp
      with value_counts_hd [OF fo vc] show ?thesis by simp
    qed
    with True s v same show ?thesis by blast
  qed
  with run len show ?thesis by blast
qed

theorem get_mode_by_zip_mode_witness:
  "\<exists>cs'. get_mode_by_zip stable_lib
      \<lparr>index = [3, 4, 5, 6],
       columns = [(''zipcode'', [Text ''90210'', Text ''90210'', Text ''90210'', Text ''90210'']),
                  (''city'', [Text ''A'', Text ''A'', Null, Text ''B''])]\<rparr> ''city'' =
     Inr (set_col ''city'' cs'
      \<lparr>index = [3, 4, 5, 6],
       columns = [(''zipcode'', [Text ''90210'', Text ''90210'', Text ''90210'', Text ''90210'']),
                  (''city'', [Text ''A'', Text ''A'', Null, Text ''B''])]\<rparr>) \<and>
     cs' ! 2 = Text ''A''"
proof -
  let ?zs = "[Text ''90210'', Text ''90210'', Text ''90210'', Text ''90210'']"
  let ?cs = "[Text ''A'', Text ''A'', Null, Text ''B'']"
  let ?df = "\<lparr>index = [3, 4, 5, 6], columns = [(''zipcode'', ?zs), (''city'', ?cs)]\<rparr>"
  have wf: "wf_df ?df" by (simp add: wf_df_def col_names_def)
  have ne: "''city'' \<noteq> ''zipcode''" by simp
  have c: "get_col ?df ''city'' = Inr ?cs" by (simp add: get_col_def)
  have z: "get_col ?df ''zipcode'' = Inr ?zs" by (simp add: get_col_def)
  have s: "search_similar_zip stable_lib ?df ''city'' (Text ''90210'') = Inr (Text ''A'')"
    by (simp add: search_similar_zip_def bindE_def get_col_def cell_eq_def value_counts_def
        isna_def stable_lib_def)
  from get_mode_by_zip_mode [OF falling_order_stable wf ne c z] obtain cs' where
    run: "get_mode_by_zip stable_lib ?df ''city'' = Inr (set_col ''city'' cs' ?df)"
    and val: "\<forall>p < length ?cs. ?cs ! p = Null \<longrightarrow>
                 search_similar_zip stable_lib ?df ''city'' (?zs ! p) = Inr (cs' ! p)"
    by blast
  from val [THEN spec, of 2] have "search_similar_zip stable_lib ?df ''city'' (?zs ! 2) = Inr (cs' ! 2)"
    by simp
  with s have "cs' ! 2 = Text ''A''" by simp
  with run show ?thesis by blast
qed

subsection \<open>Global mode imputation\<close>

text \<open>
  C3. On the column [A, A, null, B] \<open>get_mode\<close> fills the null with 2, the number of
  occurrences of the most frequent value, where the claim has its most frequent value
  A; and so for every library that sorts the counts by falling count.
\<close>

theorem get_mode_fills_count:
  assumes "falling_order lib"
  shows "get_mode lib \<lparr>index = [3, 4, 5, 6],
      columns = [(''property_type'', [Text ''A'', Text ''A'', Null, Text ''B''])]\<rparr>
     ''property_type'' = Inr [Text ''A'', Text ''A'', Num 2, Text ''B'']"
proof -
  let ?cs = "[Text ''A'', Text ''A'', Null, Text ''B'']"
  have "value_counts lib ?cs \<noteq> []" by (simp add: value_counts_Nil [OF assms])
  then obtain e r where vc: "value_counts lib ?cs = e # r"
    by (cases "value_counts lib ?cs") auto
  note h = value_counts_hd [OF assms vc]
  from h have mem: "fst e \<in> set ?cs" "fst e \<noteq> Null" by blast+
  from h have n: "snd e = count_list ?cs (fst e)" by blast
  from h have "Text ''A'' \<noteq> Null \<longrightarrow> count_list ?cs (Text ''A'') \<le> count_list ?cs (fst e)"
    by blast
  then have mx: "count_list ?cs (Text ''A'') \<le> count_list ?cs (fst e)" by simp
  have ca: "count_list ?cs (Text ''A'') = 2" and cb: "count_list ?cs (Text ''B'') = 1"
    by simp_all
  from mem have "fst e = Text ''A'' \<or> fst e = Text ''B''" by auto
  with mx ca cb have a: "fst e = Text ''A''" by auto
  with n ca have two: "snd e = 2" by simp
  have "is_text (fst x)" if "x \<in> set (value_counts lib ?cs)" for x
    using that by (auto simp: value_counts_set [OF assms] is_text_def)
  then have alltext: "list_all (\<lambda>x. is_text (fst x)) (e # r)" by (simp add: vc list_all_iff)
  have "counts_item0 lib ?cs (value_counts lib ?cs) = Inr 2"
    using alltext two by (simp add: counts_item0_def vc)
  then show ?thesis by (simp add: get_mode_def get_col_def bindE_def fillna_def isna_def)
qed

theorem get_mode_fills_count_witness:
  "get_mode stable_lib \<lparr>index = [3, 4, 5, 6],
      columns = [(''property_type'', [Text ''A'', Text ''A'', Null, Text ''B''])]\<rparr>
     ''property_type'' = Inr [Text ''A'', Text ''A'', Num 2, Text ''B'']"
  using get_mode_fills_count [OF falling_order_stable] .

subsection \<open>Rows without a value in their zipcode\<close>

lemma map_of_map_snd:
  "map_of (map (\<lambda>c. (fst c, f (snd c))) xs) k = map_option f (map_of xs k)"
  by (induction xs) auto

lemma get_col_keep_rows:
  "get_col (keep_rows m df) c = (case get_col df c of Inl e \<Rightarrow> Inl e | Inr cs \<Rightarrow> Inr (sel m cs))"
  by (simp add: get_col_def keep_rows_def map_of_map_snd split: option.splits)

lemma get_col_drop_rows:
  "get_col df c = Inr cs \<Longrightarrow>
   get_col (drop_rows ls df) c = Inr (sel (map (\<lambda>l. l \<notin> set ls) (index df)) cs)"
  by (simp add: drop_rows_def get_col_keep_rows)

lemma set_sel_subset: "set (sel m xs) \<subseteq> set xs"
  by (auto simp: sel_def dest: set_zip_rightD)

lemma get_mode_by_zip_stays_null:
  assumes "wf_df df" "column \<noteq> ''zipcode''"
    and "get_col df column = Inr cs" "get_col df ''zipcode'' = Inr zs"
    and fo: "falling_order lib"
  shows "\<exists>cs'. get_mode_by_zip lib df column = Inr (set_col column cs' df) \<and>
           (\<forall>p < length cs. cs ! p = Null \<and> (\<forall>c\<in>set (peers zs cs (zs ! p)). c = Null) \<longrightarrow>
              cs' ! p = Null)"
proof -
  from get_mode_by_zip_cells [OF assms] obtain cs' where
    run: "get_mode_by_zip lib df column = Inr (set_col column cs' df)"
    and val: "\<forall>p < length cs. cs' ! p =
              (if cs ! p = Null then top_value lib (peers zs cs (zs ! p)) else cs ! p)"
    by blast
  have "cs' ! p = Null"
    if "p < length cs" "cs ! p = Null" "\<forall>c\<in>set (peers zs cs (zs ! p)). c = Null" for p
  proof -
    from that(3) have "value_counts lib (peers zs cs (zs ! p)) = []"
      by (simp add: value_counts_Nil [OF fo])
    with val that(1,2) show ?thesis by simp
  qed
  with run show ?thesis by blast
qed

subsection \<open>Numeric imputation and normalisation\<close>

lemma foldE_invariant:
  assumes "\<And>x b. x \<in> set xs \<Longrightarrow> I b \<Longrightarrow> \<exists>b'. f x b = Inr b' \<and> I b'"
    and "I b"
  shows "\<exists>b'. foldE f xs b = Inr b' \<and> I b'"
  using assms
proof (induction xs arbitrary: b)
  case Nil
  then show ?case by simp
next
  case (Cons x xs)
  from Cons.prems(1) [of x b] Cons.prems(2) obtain b1 where b1: "f x b = Inr b1" "I b1" by auto
  have "\<exists>b'. foldE f xs b1 = Inr b' \<and> I b'"
    by (rule Cons.IH) (use Cons.prems(1) b1 in auto)
  with b1 show ?case by (simp add: bindE_def)
qed

lemma get_col_present:
  "c \<in> set (col_names df) \<Longrightarrow> \<exists>cs. get_col df c = Inr cs"
  by (auto simp: get_col_def col_names_def split: option.splits dest: weak_map_of_SomeI)

lemma fillna_Null: "fillna Null cs = cs"
  by (simp add: fillna_def isna_def map_idI)

lemma dropna_all_null: "\<forall>c\<in>set cs. c = Null \<Longrightarrow> dropna cs = []"
  by (induction cs) (auto simp: dropna_def)

lemma columns_missing_list_names:
  "set (columns_missing_list df t) \<subseteq> set (col_names df)"
  by (auto simp: columns_missing_list_def col_names_def)

lemma handle_numeric_null_column:
  assumes "get_col df c = Inr cs" "\<forall>x\<in>set cs. x = Null"
  shows "\<exists>df'. handle_numeric df method = Inr df' \<and> get_col df' c = Inr cs \<and>
           index df' = index df \<and> col_names df' = col_names df"
proof -
  let ?func = "if method = ''median'' then np_median else np_mean"
  let ?I = "\<lambda>d. get_col d c = Inr cs \<and> index d = index df \<and> col_names d = col_names df"
  let ?f = "\<lambda>column d. bindE (get_col d column) (\<lambda>xs.
                    Inr (set_col column (fillna (?func (dropna xs)) xs) d))"
  have e: "?func [] = Null" by (simp add: np_median_def np_mean_def)
  have step: "\<exists>d'. ?f column d = Inr d' \<and> ?I d'"
    if "column \<in> set (columns_missing_list df ''number'')" "?I d" for column d
  proof -
    from that columns_missing_list_names have "column \<in> set (col_names d)" by auto
    note cin = this
    then obtain xs where xs: "get_col d column = Inr xs" using get_col_present by blast
    show ?thesis
    proof (cases "column = c")
      case True
      with xs that(2) have "xs = cs" by simp
      with assms(2) e have "fillna (?func (dropna xs)) xs = cs"
        by (simp add: dropna_all_null fillna_Null del: if_split split del: if_split)
      with xs True that(2) cin show ?thesis
        by (simp add: bindE_def get_col_set_col_same col_names_set_col)
    next
      case False
      with xs that(2) cin show ?thesis
        by (simp add: bindE_def get_col_set_col_other col_names_set_col)
    qed
  qed
  have "\<exists>d'. foldE ?f (columns_missing_list df ''number'') df = Inr d' \<and> ?I d'"
    by (rule foldE_invariant [where I = ?I, OF step]) (use assms(1) in auto)
  then show ?thesis by (simp add: handle_numeric_def Let_def)
qed

text \<open>
  C5, as the claim has it, fails: on a frame whose column bathrooms is null in every
  row \<open>handle_numeric\<close> raises nothing and returns the frame with that column as
  null as before (and the other column filled).
\<close>

theorem handle_numeric_all_null_counterexample:
  "handle_numeric
     \<lparr>index = [3, 4], columns = [(''bathrooms'', [Null, Null]), (''beds'', [Num 1, Null])]\<rparr>
     ''median'' =
   Inr \<lparr>index = [3, 4], columns = [(''bathrooms'', [Null, Null]), (''beds'', [Num 1, Num 1])]\<rparr>"
  by (simp add: handle_numeric_def columns_missing_list_def select_dtype_def is_number_col_def
      is_text_def count_nulls_def isna_def bindE_def get_col_def set_col_def col_names_def
      fillna_def dropna_def np_median_def Let_def)

text \<open>
  C5, amended. For a column that is null in every row \<open>handle_numeric\<close>, with either
  method, completes and returns a frame in which that column is what it was: the
  statistic of no values is NaN, and filling nulls with NaN changes nothing.
\<close>

theorem handle_numeric_keeps_all_null:
  assumes "get_col df c = Inr cs" "cs \<noteq> []" "\<forall>x\<in>set cs. x = Null"
  shows "\<exists>df'. handle_numeric df method = Inr df' \<and> get_col df' c = Inr cs"
  using handle_numeric_null_column [OF assms(1,3)] by blast

theorem handle_numeric_keeps_all_null_witness:
  "\<exists>df'. handle_numeric
      \<lparr>index = [3, 4], columns = [(''bathrooms'', [Null, Null]), (''beds'', [Num 1, Null])]\<rparr>
      ''mean'' = Inr df' \<and>
    get_col df' ''bathrooms'' = Inr [Null, Null]"
  using handle_numeric_keeps_all_null [of
      "\<lparr>index = [3, 4], columns = [(''bathrooms'', [Null, Null]), (''beds'', [Num 1, Null])]\<rparr>"
      "''bathrooms''" "[Null, Null]" "''mean''"]
  by (simp add: get_col_def)

text \<open>
  C6. A null cell in a currency column is not skipped: \<open>money_to_numeric\<close> slices
  every cell, the null raises TypeError, and \<open>clean_data\<close> stops there with the
  frame unchanged, whatever the library's parser of numbers. The percentage path on the same
  shape of column passes the null through.
\<close>

theorem money_to_numeric_null_raises:
  "money_to_numeric [Text ''$1,234.50'', Null] = Inl TypeError \<and>
   percentage_to_numeric [Text ''90%'', Null] = Inr [Text ''90'', Null] \<and>
   clean_data lib 0 [\<lparr>index = [3, 4], columns = [(''price'', [Text ''$1,234.50'', Null])]\<rparr>] =
     ([\<lparr>index = [3, 4], columns = [(''price'', [Text ''$1,234.50'', Null])]\<rparr>], Inl TypeError)"
  by (simp add: money_to_numeric_def percentage_to_numeric_def is_number_col_def is_text_def
      bindE_def clean_data_def bindS_def in_place_def convert_column_def get_col_def Let_def)

subsection \<open>Column names through the pipeline\<close>

lemma bindE_InrD: "bindE m f = Inr y \<Longrightarrow> \<exists>x. m = Inr x \<and> f x = Inr y"
  by (auto simp: bindE_def split: sum.splits)

lemma foldE_preserve:
  assumes "\<And>x b b'. f x b = Inr b' \<Longrightarrow> Q b \<Longrightarrow> Q b'"
    and "foldE f xs b = Inr b'" "Q b"
  shows "Q b'"
  using assms(2,3)
proof (induction xs arbitrary: b)
  case Nil
  then show ?case by simp
next
  case (Cons x xs)
  from bindE_InrD [OF Cons.prems(1) [simplified]] obtain b1 where
    "f x b = Inr b1" "foldE f xs b1 = Inr b'" by blast
  with Cons.IH [of b1] assms(1) [of x b b1] Cons.prems(2) show ?case by blast
qed

lemma col_names_drop_rows [simp]: "col_names (drop_rows ls df) = col_names df"
  by (simp add: drop_rows_def col_names_keep_rows)

lemma col_names_loc_set [simp]: "col_names (loc_set i c v df) = col_names df"
  by (auto simp: loc_set_def col_names_def comp_def intro!: map_cong)

lemma impute_rows_names:
  "impute_rows lib column izs df = Inr df' \<Longrightarrow> col_names df' = col_names df"
proof (induction izs arbitrary: df)
  case Nil
  then show ?case by simp
next
  case (Cons iz izs)
  from bindE_InrD [OF Cons.prems [simplified]] obtain v where
    "impute_rows lib column izs (loc_set (fst iz) column v df) = Inr df'" by blast
  from Cons.IH [OF this] show ?case by simp
qed

lemma get_mode_by_zip_names:
  "get_mode_by_zip lib df column = Inr df' \<Longrightarrow> col_names df' = col_names df"
  by (auto simp: get_mode_by_zip_def dest!: bindE_InrD dest: impute_rows_names)

lemma get_mode_set_col_names:
  assumes "bindE (get_mode lib df column) (\<lambda>vs. Inr (set_col column vs df)) = Inr df'"
  shows "col_names df' = col_names df"
proof -
  from bindE_InrD [OF assms] obtain vs where g: "get_mode lib df column = Inr vs"
    and d: "df' = set_col column vs df" by auto
  from g obtain cs where "get_col df column = Inr cs"
    by (auto simp: get_mode_def dest!: bindE_InrD)
  then have "column \<in> set (col_names df)" by (rule get_col_names)
  with d show ?thesis by (simp add: col_names_set_col)
qed

lemma drop_labels_names:
  "drop_labels ns df = Inr df' \<Longrightarrow> col_names df' = filter (\<lambda>n. n \<notin> set ns) (col_names df)"
  by (auto simp: drop_labels_def drop_cols_def col_names_def filter_map comp_def split: list.splits)

lemma impute_categorical_names:
  assumes "impute_categorical lib df = Inr df5"
  shows "''host_location'' \<notin> set (col_names df5)"
proof -
  from assms obtain zs df2 sm df4 where
    z: "get_col df ''zipcode'' = Inr zs"
    and d2: "drop_labels [''host_location'', ''neighbourhood'']
               (drop_rows (sel (map isna zs) (index df)) df) = Inr df2"
    and sm: "get_col df2 ''summary'' = Inr sm"
    and d4: "foldE (\<lambda>column df. bindE (get_mode lib df column) (\<lambda>vs. Inr (set_col column vs df)))
              [''property_type'', ''host_response_time'']
              (set_col ''summary'' (fillna (Text ''missing'') sm) df2) = Inr df4"
    and d5: "foldE (\<lambda>column df. get_mode_by_zip lib df column)
              [''market'', ''host_neighbourhood'', ''city''] df4 = Inr df5"
    unfolding impute_categorical_def Let_def
    by (auto dest!: bindE_InrD simp del: foldE.simps)
  let ?Q = "\<lambda>d. ''host_location'' \<notin> set (col_names d)"
  from drop_labels_names [OF d2] have "?Q df2" by simp
  with get_col_names [OF sm] have q3: "?Q (set_col ''summary'' (fillna (Text ''missing'') sm) df2)"
    by (simp add: col_names_set_col)
  have q4: "?Q df4"
  proof (rule foldE_preserve [where Q = ?Q, OF _ d4])
    show "?Q (set_col ''summary'' (fillna (Text ''missing'') sm) df2)" by (rule q3)
  next
    fix x b b'
    assume "bindE (get_mode lib b x) (\<lambda>vs. Inr (set_col x vs b)) = Inr b'" and "?Q b"
    then show "?Q b'" by (simp add: get_mode_set_col_names)
  qed
  show "?Q df5"
  proof (rule foldE_preserve [where Q = ?Q, OF _ d5])
    show "?Q df4" by (rule q4)
  next
    fix x b b'
    assume "get_mode_by_zip lib b x = Inr b'" and "?Q b"
    then show "?Q b'" by (simp add: get_mode_by_zip_names)
  qed
qed

lemma drop_unresolved_names:
  "drop_unresolved df5 = Inr df' \<Longrightarrow> col_names df' = col_names df5"
  by (auto simp: drop_unresolved_def Let_def dest!: bindE_InrD)

lemma handle_categorical_names:
  assumes "handle_categorical lib df = Inr df'"
  shows "''host_location'' \<notin> set (col_names df')"
proof -
  from assms obtain df5 where "impute_categorical lib df = Inr df5" "drop_unresolved df5 = Inr df'"
    by (auto simp: handle_categorical_def dest!: bindE_InrD)
  with impute_categorical_names drop_unresolved_names show ?thesis by metis
qed

lemma handle_categorical_fails:
  assumes "''host_location'' \<notin> set (col_names df)"
  shows "\<exists>e. handle_categorical lib df = Inl e"
proof (cases "get_col df ''zipcode''")
  case (Inl e)
  then show ?thesis by (simp add: handle_categorical_def impute_categorical_def bindE_def)
next
  case (Inr zs)
  from assms have "drop_labels [''host_location'', ''neighbourhood'']
      (drop_rows (sel (map isna zs) (index df)) df) = Inl (KeyError ''host_location'')"
    by (simp add: drop_labels_def)
  with Inr show ?thesis
    by (simp add: handle_categorical_def impute_categorical_def bindE_def Let_def)
qed

lemma convert_column_names:
  "convert_column conv c df = Inr df' \<Longrightarrow> col_names df' = col_names df"
  by (auto simp: convert_column_def bindE_def col_names_set_col
      split: sum.splits error.splits dest: get_col_names)

lemma col_names_drop_duplicates [simp]: "col_names (drop_duplicates df) = col_names df"
  by (simp add: drop_duplicates_def col_names_keep_rows)

lemma handle_repetitive_data_names:
  assumes "handle_repetitive_data df = Inr df'"
  shows "set (col_names df') \<subseteq> set (col_names df)"
proof -
  let ?f = "\<lambda>column df. case drop_labels [column] df of Inl (KeyError _) \<Rightarrow> Inr df | res \<Rightarrow> res"
  from assms obtain d where d: "foldE ?f [''experiences_offered'', ''host_listings_count'',
      ''neighbourhood_group_cleansed'', ''jurisdiction_names''] df = Inr d"
    and r: "df' = drop_duplicates d"
    by (auto simp: handle_repetitive_data_def Let_def dest!: bindE_InrD simp del: foldE.simps)
  have "set (col_names d) \<subseteq> set (col_names df)"
  proof (rule foldE_preserve [where Q = "\<lambda>d. set (col_names d) \<subseteq> set (col_names df)", OF _ d])
    fix x b b'
    assume s: "?f x b = Inr b'" and q: "set (col_names b) \<subseteq> set (col_names df)"
    from s have "b' = b \<or> drop_labels [x] b = Inr b'"
      by (auto split: sum.splits error.splits)
    then show "set (col_names b') \<subseteq> set (col_names df)"
    proof
      assume "b' = b"
      with q show ?thesis by simp
    next
      assume "drop_labels [x] b = Inr b'"
      from drop_labels_names [OF this] have "set (col_names b') \<subseteq> set (col_names b)" by auto
      with q show ?thesis by blast
    qed
  qed simp
  with r show ?thesis by simp
qed

lemma handle_numeric_names:
  assumes "handle_numeric df method = Inr df'"
  shows "col_names df' = col_names df"
proof -
  let ?func = "if method = ''median'' then np_median else np_mean"
  let ?f = "\<lambda>column d. bindE (get_col d column) (\<lambda>xs.
                    Inr (set_col column (fillna (?func (dropna xs)) xs) d))"
  from assms have d: "foldE ?f (columns_missing_list df ''number'') df = Inr df'"
    by (simp add: handle_numeric_def Let_def)
  show ?thesis
  proof (rule foldE_preserve [where Q = "\<lambda>d. col_names d = col_names df", OF _ d])
    fix x b b'
    assume s: "?f x b = Inr b'" and q: "col_names b = col_names df"
    from bindE_InrD [OF s] obtain xs where g: "get_col b x = Inr xs"
      and b': "b' = set_col x (fillna (?func (dropna xs)) xs) b" by auto
    from g have "x \<in> set (col_names b)" by (rule get_col_names)
    with q b' show "col_names b' = col_names df"
      by (simp add: col_names_set_col)
  qed simp
qed

subsection \<open>The final cleanup of the categorical columns\<close>

lemma length_sel: "length xs = length ys \<Longrightarrow> length (sel m xs) = length (sel m ys)"
proof (induction m arbitrary: xs ys)
  case Nil
  then show ?case by simp
next
  case (Cons b m)
  then show ?case by (cases xs; cases ys) auto
qed

lemma distinct_sel: "distinct xs \<Longrightarrow> distinct (sel m xs)"
proof (induction m arbitrary: xs)
  case Nil
  then show ?case by simp
next
  case (Cons b m)
  show ?case
  proof (cases xs)
    case Nil
    then show ?thesis by simp
  next
    case (Cons x xs')
    with Cons.prems Cons.IH [of xs'] set_sel_subset [of m xs'] show ?thesis by auto
  qed
qed

lemma wf_keep_rows: "wf_df df \<Longrightarrow> wf_df (keep_rows m df)"
  by (auto simp: wf_df_def keep_rows_def col_names_def comp_def list_all_iff
      intro: distinct_sel length_sel)

lemma wf_drop_rows: "wf_df df \<Longrightarrow> wf_df (drop_rows ls df)"
  by (simp add: drop_rows_def wf_keep_rows)

lemma wf_drop_labels: "wf_df df \<Longrightarrow> drop_labels ns df = Inr df' \<Longrightarrow> wf_df df'"
  by (fastforce simp: wf_df_def drop_labels_def drop_cols_def col_names_def list_all_iff
      distinct_map_filter split: list.splits)

lemma wf_set_col:
  "wf_df df \<Longrightarrow> c \<in> set (col_names df) \<Longrightarrow> length vs = length (index df) \<Longrightarrow>
   wf_df (set_col c vs df)"
  by (auto simp: wf_df_def col_names_set_col) (auto simp: set_col_def list_all_iff)

lemma wf_loc_set: "wf_df df \<Longrightarrow> wf_df (loc_set i c v df)"
  by (auto simp: wf_df_def) (auto simp: loc_set_def list_all_iff)

lemma impute_rows_wf:
  "impute_rows lib column izs df = Inr df' \<Longrightarrow> wf_df df \<Longrightarrow> wf_df df'"
proof (induction izs arbitrary: df)
  case Nil
  then show ?case by simp
next
  case (Cons iz izs)
  from bindE_InrD [OF Cons.prems(1) [simplified]] obtain v where
    "impute_rows lib column izs (loc_set (fst iz) column v df) = Inr df'" by blast
  from Cons.IH [OF this] Cons.prems(2) show ?case by (simp add: wf_loc_set)
qed

lemma get_mode_by_zip_wf:
  "get_mode_by_zip lib df column = Inr df' \<Longrightarrow> wf_df df \<Longrightarrow> wf_df df'"
  by (auto simp: get_mode_by_zip_def dest!: bindE_InrD dest: impute_rows_wf)

lemma wf_col_length:
  assumes "wf_df df" "get_col df c = Inr cs"
  shows "length cs = length (index df)"
proof -
  from get_col_mem [OF assms(2)] have "(c, cs) \<in> set (columns df)" .
  moreover from assms(1) have "\<forall>k\<in>set (columns df). length (snd k) = length (index df)"
    by (simp add: wf_df_def list_all_iff)
  ultimately show ?thesis by fastforce
qed

lemma get_mode_set_col_wf:
  assumes "bindE (get_mode lib df column) (\<lambda>vs. Inr (set_col column vs df)) = Inr df'" "wf_df df"
  shows "wf_df df'"
proof -
  from bindE_InrD [OF assms(1)] obtain vs where g: "get_mode lib df column = Inr vs"
    and d: "df' = set_col column vs df" by auto
  from g obtain cs where c: "get_col df column = Inr cs" and l: "length vs = length cs"
    by (auto simp: get_mode_def fillna_def dest!: bindE_InrD)
  from wf_col_length [OF assms(2) c] l have "length vs = length (index df)" by simp
  with d assms(2) get_col_names [OF c] show ?thesis by (simp add: wf_set_col)
qed

lemma impute_categorical_wf:
  assumes "impute_categorical lib df = Inr df5" "wf_df df"
  shows "wf_df df5"
proof -
  from assms(1) obtain zs df2 sm df4 where
    z: "get_col df ''zipcode'' = Inr zs"
    and d2: "drop_labels [''host_location'', ''neighbourhood'']
               (drop_rows (sel (map isna zs) (index df)) df) = Inr df2"
    and sm: "get_col df2 ''summary'' = Inr sm"
    and d4: "foldE (\<lambda>column df. bindE (get_mode lib df column) (\<lambda>vs. Inr (set_col column vs df)))
              [''property_type'', ''host_response_time'']
              (set_col ''summary'' (fillna (Text ''missing'') sm) df2) = Inr df4"
    and d5: "foldE (\<lambda>column df. get_mode_by_zip lib df column)
              [''market'', ''host_neighbourhood'', ''city''] df4 = Inr df5"
    unfolding impute_categorical_def Let_def
    by (auto dest!: bindE_InrD simp del: foldE.simps)
  from wf_drop_labels [OF wf_drop_rows [OF assms(2)] d2] have w2: "wf_df df2" .
  have "length (fillna (Text ''missing'') sm) = length (index df2)"
    using wf_col_length [OF w2 sm] by (simp add: fillna_def)
  with w2 get_col_names [OF sm] have w3: "wf_df (set_col ''summary'' (fillna (Text ''missing'') sm) df2)"
    by (simp add: wf_set_col)
  have w4: "wf_df df4"
  proof (rule foldE_preserve [where Q = wf_df, OF _ d4])
    show "wf_df (set_col ''summary'' (fillna (Text ''missing'') sm) df2)" by (rule w3)
  next
    fix x b b'
    assume "bindE (get_mode lib b x) (\<lambda>vs. Inr (set_col x vs b)) = Inr b'" and "wf_df b"
    then show "wf_df b'" by (rule get_mode_set_col_wf)
  qed
  show "wf_df df5"
  proof (rule foldE_preserve [where Q = wf_df, OF _ d5])
    show "wf_df df4" by (rule w4)
  next
    fix x b b'
    assume "get_mode_by_zip lib b x = Inr b'" and "wf_df b"
    then show "wf_df b'" by (rule get_mode_by_zip_wf)
  qed
qed

lemma impute_categorical_columns:
  assumes "impute_categorical lib df = Inr df5"
  shows "''host_neighbourhood'' \<in> set (col_names df5) \<and> ''city'' \<in> set (col_names df5)"
proof -
  from assms obtain df4 where
    d5: "foldE (\<lambda>column df. get_mode_by_zip lib df column)
              [''market'', ''host_neighbourhood'', ''city''] df4 = Inr df5"
    unfolding impute_categorical_def Let_def
    by (auto dest!: bindE_InrD simp del: foldE.simps)
  then obtain da db where b: "get_mode_by_zip lib da ''host_neighbourhood'' = Inr db"
    and c: "get_mode_by_zip lib db ''city'' = Inr df5"
    by (auto dest!: bindE_InrD)
  from b obtain hs where "get_col da ''host_neighbourhood'' = Inr hs"
    by (auto simp: get_mode_by_zip_def dest!: bindE_InrD)
  then have "''host_neighbourhood'' \<in> set (col_names da)" by (rule get_col_names)
  with get_mode_by_zip_names [OF b] get_mode_by_zip_names [OF c]
  have 1: "''host_neighbourhood'' \<in> set (col_names df5)" by simp
  from c obtain ct where "get_col db ''city'' = Inr ct"
    by (auto simp: get_mode_by_zip_def dest!: bindE_InrD)
  then have "''city'' \<in> set (col_names db)" by (rule get_col_names)
  with get_mode_by_zip_names [OF c] have "''city'' \<in> set (col_names df5)" by simp
  with 1 show ?thesis by blast
qed

lemma drop_null_rows:
  assumes "wf_df df" "get_col df c = Inr cs"
  shows "drop_rows (sel (map isna cs) (index df)) df =
         keep_rows (map (\<lambda>p. cs ! p \<noteq> Null) [0..<length (index df)]) df"
proof -
  from assms(1) have d: "distinct (index df)" by (simp add: wf_df_def)
  have "map isna cs = map (\<lambda>p. cs ! p = Null) [0..<length (index df)]"
    using wf_col_length [OF assms] by (intro nth_equalityI) (auto simp: isna_def)
  then show ?thesis using drop_rows_mask [OF d, of "\<lambda>p. cs ! p = Null"] by simp
qed

lemma map_filter_nth:
  "map (\<lambda>q. f (ps ! q)) (filter (\<lambda>q. Q (ps ! q)) [0..<length ps]) = map f (filter Q ps)"
proof -
  have "map f (filter Q (map (\<lambda>q. ps ! q) [0..<length ps])) =
        map (\<lambda>q. f (ps ! q)) (filter (\<lambda>q. Q (ps ! q)) [0..<length ps])"
    by (simp add: filter_map comp_def)
  then show ?thesis by (simp add: map_nth)
qed

lemma row_cells_keep_rows:
  assumes "list_all (\<lambda>c. length (snd c) = length (index df)) (columns df)"
    and "q < length (filter P [0..<length (index df)])"
  shows "row_cells (keep_rows (map P [0..<length (index df)]) df) q =
         row_cells df (filter P [0..<length (index df)] ! q)"
  using assms(2) by (simp add: row_cells_def columns_keep_rows [OF assms(1)] comp_def)

lemma drop_unresolved_rows:
  assumes "wf_df df5" "get_col df5 ''host_neighbourhood'' = Inr hn" "get_col df5 ''city'' = Inr ct"
  shows "\<exists>tbl'. drop_unresolved df5 = Inr tbl' \<and> col_names tbl' = col_names df5 \<and>
           rows_of tbl' = map (\<lambda>p. (index df5 ! p, row_cells df5 p))
                              (filter (\<lambda>p. hn ! p \<noteq> Null \<and> ct ! p \<noteq> Null) [0..<length (index df5)])"
proof -
  let ?N = "length (index df5)"
  let ?P = "\<lambda>p. hn ! p \<noteq> Null"
  let ?ps = "filter ?P [0..<?N]"
  let ?df6 = "keep_rows (map ?P [0..<?N]) df5"
  from assms(1) have l5: "list_all (\<lambda>c. length (snd c) = length (index df5)) (columns df5)"
    by (simp add: wf_df_def)
  have d6: "drop_rows (sel (map isna hn) (index df5)) df5 = ?df6"
    by (rule drop_null_rows [OF assms(1,2)])
  have w6: "wf_df ?df6" by (rule wf_keep_rows [OF assms(1)])
  then have l6: "list_all (\<lambda>c. length (snd c) = length (index ?df6)) (columns ?df6)"
    by (simp add: wf_df_def)
  have i6: "index ?df6 = map (\<lambda>p. index df5 ! p) ?ps" by (rule index_keep_rows)
  then have n6: "length (index ?df6) = length ?ps" by simp
  let ?ct6 = "map (\<lambda>p. ct ! p) ?ps"
  have "sel (map ?P [0..<?N]) (map (\<lambda>p. ct ! p) [0..<?N]) = ?ct6" by (rule sel_map_map)
  then have "sel (map ?P [0..<?N]) ct = ?ct6"
    using wf_col_length [OF assms(1,3)] map_nth [of ct] by simp
  then have c6: "get_col ?df6 ''city'' = Inr ?ct6"
    using assms(3) by (simp add: get_col_keep_rows)
  let ?tbl = "keep_rows (map (\<lambda>q. ?ct6 ! q \<noteq> Null) [0..<length (index ?df6)]) ?df6"
  have d7: "drop_rows (sel (map isna ?ct6) (index ?df6)) ?df6 = ?tbl"
    by (rule drop_null_rows [OF w6 c6])
  have run: "drop_unresolved df5 = Inr ?tbl"
    using assms(2) c6 d7 by (simp add: drop_unresolved_def bindE_def Let_def d6)
  have "rows_of ?tbl = map (\<lambda>q. (index ?df6 ! q, row_cells ?df6 q))
          (filter (\<lambda>q. ?ct6 ! q \<noteq> Null) [0..<length (index ?df6)])"
    by (rule rows_of_keep_rows [OF l6])
  also have "\<dots> = map (\<lambda>q. (index df5 ! (?ps ! q), row_cells df5 (?ps ! q)))
          (filter (\<lambda>q. ct ! (?ps ! q) \<noteq> Null) [0..<length ?ps])"
  proof -
    have f: "filter (\<lambda>q. ?ct6 ! q \<noteq> Null) [0..<length (index ?df6)] =
          filter (\<lambda>q. ct ! (?ps ! q) \<noteq> Null) [0..<length ?ps]"
      unfolding n6 by (rule filter_cong) simp_all
    have "(index ?df6 ! q, row_cells ?df6 q) = (index df5 ! (?ps ! q), row_cells df5 (?ps ! q))"
      if "q < length ?ps" for q
      using that row_cells_keep_rows [OF l5 that] by (simp add: i6)
    then show ?thesis unfolding f by (intro map_cong refl) simp
  qed
  also have "\<dots> = map (\<lambda>p. (index df5 ! p, row_cells df5 p)) (filter (\<lambda>p. ct ! p \<noteq> Null) ?ps)"
    by (rule map_filter_nth)
  also have "filter (\<lambda>p. ct ! p \<noteq> Null) ?ps =
             filter (\<lambda>p. hn ! p \<noteq> Null \<and> ct ! p \<noteq> Null) [0..<?N]"
    by (simp add: conj_commute)
  finally have rows: "rows_of ?tbl = map (\<lambda>p. (index df5 ! p, row_cells df5 p))
                              (filter (\<lambda>p. hn ! p \<noteq> Null \<and> ct ! p \<noteq> Null) [0..<?N])" .
  have "col_names ?tbl = col_names df5" by (simp add: col_names_keep_rows)
  with run rows show ?thesis by blast
qed

text \<open>
  C2. A null target cell whose zipcode no row with a value shares (no other row has the
  zipcode, or each that has it is null in the target column too, or the zipcode is
  itself null) is still null after \<open>get_mode_by_zip\<close>. And \<open>handle_categorical\<close>,
  on a frame whose imputation (lines 220 to 237, ending with the three passes of
  \<open>get_mode_by_zip\<close>) gives the frame \<open>df5\<close>, returns \<open>df5\<close> without the rows
  that are still null in host_neighbourhood or in city: the rows it returns are the
  other rows of \<open>df5\<close>, each with its label and cells, in their order.
\<close>

theorem zip_fallback_null_then_dropped:
  assumes "falling_order lib" "wf_df df" "column \<noteq> ''zipcode''"
    and "get_col df column = Inr cs" "get_col df ''zipcode'' = Inr zs"
    and "wf_df tbl" "impute_categorical lib tbl = Inr df5"
  shows "(\<exists>cs'. get_mode_by_zip lib df column = Inr (set_col column cs' df) \<and>
           (\<forall>p < length cs. cs ! p = Null \<and> (\<forall>c\<in>set (peers zs cs (zs ! p)). c = Null) \<longrightarrow>
              cs' ! p = Null)) \<and>
         (\<exists>hn ct tbl'.
            get_col df5 ''host_neighbourhood'' = Inr hn \<and> get_col df5 ''city'' = Inr ct \<and>
            handle_categorical lib tbl = Inr tbl' \<and> col_names tbl' = col_names df5 \<and>
            rows_of tbl' =
              map (\<lambda>p. (index df5 ! p, row_cells df5 p))
                  (filter (\<lambda>p. hn ! p \<noteq> Null \<and> ct ! p \<noteq> Null) [0..<length (index df5)]))"
proof -
  from impute_categorical_columns [OF assms(7)] obtain hn ct where
    hn: "get_col df5 ''host_neighbourhood'' = Inr hn" and ct: "get_col df5 ''city'' = Inr ct"
    using get_col_present by blast
  from drop_unresolved_rows [OF impute_categorical_wf [OF assms(7,6)] hn ct] obtain tbl' where
    "drop_unresolved df5 = Inr tbl'" "col_names tbl' = col_names df5"
    "rows_of tbl' = map (\<lambda>p. (index df5 ! p, row_cells df5 p))
        (filter (\<lambda>p. hn ! p \<noteq> Null \<and> ct ! p \<noteq> Null) [0..<length (index df5)])"
    by blast
  moreover from this(1) assms(7) have "handle_categorical lib tbl = Inr tbl'"
    by (simp add: handle_categorical_def bindE_def)
  ultimately have "\<exists>hn ct tbl'.
            get_col df5 ''host_neighbourhood'' = Inr hn \<and> get_col df5 ''city'' = Inr ct \<and>
            handle_categorical lib tbl = Inr tbl' \<and> col_names tbl' = col_names df5 \<and>
            rows_of tbl' =
              map (\<lambda>p. (index df5 ! p, row_cells df5 p))
                  (filter (\<lambda>p. hn ! p \<noteq> Null \<and> ct ! p \<noteq> Null) [0..<length (index df5)])"
    using hn ct by blast
  with get_mode_by_zip_stays_null [OF assms(2-5) assms(1)] show ?thesis by blast
qed

theorem zip_fallback_null_then_dropped_witness:
  "(\<exists>cs'. get_mode_by_zip stable_lib
       \<lparr>index = [3, 4, 5],
        columns = [(''zipcode'', [Text ''02134'', Text ''02134'', Text ''02135'']),
                   (''city'', [Text ''A'', Text ''A'', Null])]\<rparr> ''city'' =
      Inr (set_col ''city'' cs'
       \<lparr>index = [3, 4, 5],
        columns = [(''zipcode'', [Text ''02134'', Text ''02134'', Text ''02135'']),
                   (''city'', [Text ''A'', Text ''A'', Null])]\<rparr>) \<and>
      cs' ! 2 = Null) \<and>
   (\<exists>tbl'. handle_categorical stable_lib rooms_raw = Inr tbl' \<and>
      rows_of tbl' =
        [(3, [Text ''02134'', Text ''missing'', Text ''House'', Text ''fast'', Text ''Boston'',
              Text ''A'', Text ''Boston''])])"
proof -
  let ?zs = "[Text ''02134'', Text ''02134'', Text ''02135'']"
  let ?cs = "[Text ''A'', Text ''A'', Null]"
  let ?df = "\<lparr>index = [3, 4, 5], columns = [(''zipcode'', ?zs), (''city'', ?cs)]\<rparr>"
  have wf: "wf_df ?df" by (simp add: wf_df_def col_names_def)
  have ne: "''city'' \<noteq> ''zipcode''" by simp
  have c: "get_col ?df ''city'' = Inr ?cs" by (simp add: get_col_def)
  have z: "get_col ?df ''zipcode'' = Inr ?zs" by (simp add: get_col_def)
  have wt: "wf_df rooms_raw" by (simp add: wf_df_def col_names_def)
  have imp: "impute_categorical stable_lib rooms_raw = Inr rooms_imputed"
    by (simp add: impute_categorical_def bindE_def get_col_def drop_rows_def keep_rows_def
      drop_labels_def drop_cols_def col_names_def set_col_def fillna_def isna_def get_mode_def
      get_mode_by_zip_def search_similar_zip_def value_counts_def counts_item0_def is_num_def
      is_text_def loc_set_def cell_eq_def stable_lib_def Let_def)
  from zip_fallback_null_then_dropped [OF falling_order_stable wf ne c z wt imp]
  obtain cs' hn ct tbl' where
    run: "get_mode_by_zip stable_lib ?df ''city'' = Inr (set_col ''city'' cs' ?df)"
    and val: "\<forall>p < length ?cs. ?cs ! p = Null \<and> (\<forall>c\<in>set (peers ?zs ?cs (?zs ! p)). c = Null) \<longrightarrow>
              cs' ! p = Null"
    and hn: "get_col rooms_imputed ''host_neighbourhood'' = Inr hn"
    and ct: "get_col rooms_imputed ''city'' = Inr ct"
    and hc: "handle_categorical stable_lib rooms_raw = Inr tbl'"
    and rows: "rows_of tbl' =
              map (\<lambda>p. (index rooms_imputed ! p, row_cells rooms_imputed p))
                  (filter (\<lambda>p. hn ! p \<noteq> Null \<and> ct ! p \<noteq> Null) [0..<length (index rooms_imputed)])"
    by blast
  from val [THEN spec, of 2] have n: "cs' ! 2 = Null" by (simp add: cell_eq_def)
  from hn have hn': "hn = [Text ''A'', Null]" by (simp add: get_col_def)
  from ct have ct': "ct = [Text ''Boston'', Text ''Boston'']" by (simp add: get_col_def)
  from rows have "rows_of tbl' =
        [(3, [Text ''02134'', Text ''missing'', Text ''House'', Text ''fast'', Text ''Boston'',
              Text ''A'', Text ''Boston''])]"
    by (simp add: hn' ct' row_cells_def)
  with run n hc show ?thesis by blast
qed

subsection \<open>Runs of the pipeline\<close>

lemma bindS_cases:
  assumes "bindS m f s = (s', res)"
  shows "(\<exists>e. m s = (s', Inl e) \<and> res = Inl e) \<or> (\<exists>s1 x. m s = (s1, Inr x) \<and> f x s1 = (s', res))"
  using assms by (auto simp: bindS_def split: prod.splits sum.splits)

lemma in_place_cases:
  assumes "in_place r g s = (s', res)"
  shows "(\<exists>e. g (s ! r) = Inl e \<and> s' = s \<and> res = Inl e) \<or>
         (\<exists>d. g (s ! r) = Inr d \<and> s' = s[r := d] \<and> res = Inr r)"
  using assms by (auto simp: in_place_def split: sum.splits)

lemma fresh_cases:
  assumes "fresh r g s = (s', res)"
  shows "(\<exists>e. g (s ! r) = Inl e \<and> s' = s \<and> res = Inl e) \<or>
         (\<exists>d. g (s ! r) = Inr d \<and> s' = s @ [d] \<and> res = Inr (length s))"
  using assms by (auto simp: fresh_def split: sum.splits)

text \<open>What a step in place keeps: the size of the store, the other frames, and a
  property of the frame that the step preserves.\<close>

lemma in_place_keeps:
  assumes "in_place r g s = (s', res)" "r < length s"
    and "\<And>d d'. g d = Inr d' \<Longrightarrow> Q d \<Longrightarrow> Q d'"
  shows "length s' = length s \<and> (\<forall>a. a \<noteq> r \<longrightarrow> s' ! a = s ! a) \<and> (Q (s ! r) \<longrightarrow> Q (s' ! r))"
  using in_place_cases [OF assms(1)] assms(2,3) by auto

lemma forS_keeps:
  assumes "forS xs (\<lambda>x. in_place r (g x)) r s = (s', res)" "r < length s"
    and "\<And>x d d'. g x d = Inr d' \<Longrightarrow> Q d \<Longrightarrow> Q d'"
  shows "length s' = length s \<and> (\<forall>a. a \<noteq> r \<longrightarrow> s' ! a = s ! a) \<and> (Q (s ! r) \<longrightarrow> Q (s' ! r))"
  using assms(1,2)
proof (induction xs arbitrary: s)
  case Nil
  then show ?case by simp
next
  case (Cons x xs)
  from Cons.prems(1) have b: "bindS (in_place r (g x)) (\<lambda>_. forS xs (\<lambda>x. in_place r (g x)) r) s = (s', res)"
    by simp
  from bindS_cases [OF b] show ?case
  proof (elim disjE exE conjE)
    fix e assume "in_place r (g x) s = (s', Inl e)"
    from in_place_keeps [OF this Cons.prems(2), of Q] assms(3) show ?thesis by blast
  next
    fix s1 y assume 1: "in_place r (g x) s = (s1, Inr y)"
      and 2: "forS xs (\<lambda>x. in_place r (g x)) r s1 = (s', res)"
    from in_place_keeps [OF 1 Cons.prems(2), of Q] assms(3)
    have k1: "length s1 = length s" "\<forall>a. a \<noteq> r \<longrightarrow> s1 ! a = s ! a" "Q (s ! r) \<longrightarrow> Q (s1 ! r)"
      by blast+
    from Cons.IH [OF 2] k1(1) Cons.prems(2)
    have "length s' = length s1 \<and> (\<forall>a. a \<noteq> r \<longrightarrow> s' ! a = s1 ! a) \<and> (Q (s1 ! r) \<longrightarrow> Q (s' ! r))"
      by simp
    with k1 show ?thesis by simp
  qed
qed

text \<open>The shape of a run of \<open>clean_data\<close>: steps in place on the frame given, then
  either an error with the store as those steps left it, or the frame of
  \<open>handle_categorical\<close> at a new address.\<close>

lemma clean_data_run:
  assumes "clean_data lib r s = (s', res)" "r < length s"
  shows "\<exists>s4. length s4 = length s \<and> (\<forall>a. a \<noteq> r \<longrightarrow> s4 ! a = s ! a) \<and>
           (''host_location'' \<notin> set (col_names (s ! r)) \<longrightarrow>
              ''host_location'' \<notin> set (col_names (s4 ! r))) \<and>
           ((\<exists>e. res = Inl e \<and> s' = s4) \<or>
            (\<exists>d. handle_categorical lib (s4 ! r) = Inr d \<and> s' = s4 @ [d] \<and> res = Inr (length s4)))"
proof -
  let ?Q = "\<lambda>d. ''host_location'' \<notin> set (col_names d)"
  let ?K = "\<lambda>t. length t = length s \<and> (\<forall>a. a \<noteq> r \<longrightarrow> t ! a = s ! a) \<and> (?Q (s ! r) \<longrightarrow> ?Q (t ! r))"
  let ?money = "\<lambda>column. convert_column (\<lambda>cs. bindE (money_to_numeric cs) (to_numeric lib)) column"
  let ?perc = "\<lambda>column. convert_column (\<lambda>cs. bindE (percentage_to_numeric cs) (to_numeric lib)) column"
  have conv: "?Q d'" if "convert_column c x d = Inr d'" "?Q d" for c x d d'
    using that by (simp add: convert_column_names)
  have rep: "?Q d'" if "handle_repetitive_data d = Inr d'" "?Q d" for d d'
    using handle_repetitive_data_names [OF that(1)] that(2) by blast
  have num: "?Q d'" if "handle_numeric d m = Inr d'" "?Q d" for d d' m
    using that by (simp add: handle_numeric_names)
  have K0: "?K s" by simp
  from assms(1) have run: "bindS (forS [''price'', ''extra_people''] (\<lambda>column. in_place r (?money column)) r)
     (\<lambda>_. bindS (forS [''host_response_rate'', ''host_acceptance_rate'']
                    (\<lambda>column. in_place r (?perc column)) r)
     (\<lambda>_. bindS (handle_repetitive_data_st r)
     (\<lambda>r1. bindS (handle_numeric_st r1 ''median'')
     (\<lambda>r2. handle_categorical_st lib r2)))) s = (s', res)"
    by (simp add: clean_data_def Let_def)
  from bindS_cases [OF run] show ?thesis
  proof (elim disjE exE conjE)
    fix e assume 1: "forS [''price'', ''extra_people''] (\<lambda>column. in_place r (?money column)) r s = (s', Inl e)"
      and "res = Inl e"
    from forS_keeps [OF 1 assms(2), of ?Q] conv have "?K s'" by blast
    with \<open>res = Inl e\<close> show ?thesis by blast
  next
    fix s1 x1
    assume 1: "forS [''price'', ''extra_people''] (\<lambda>column. in_place r (?money column)) r s = (s1, Inr x1)"
      and run2: "bindS (forS [''host_response_rate'', ''host_acceptance_rate'']
                    (\<lambda>column. in_place r (?perc column)) r)
         (\<lambda>_. bindS (handle_repetitive_data_st r)
         (\<lambda>r1. bindS (handle_numeric_st r1 ''median'')
         (\<lambda>r2. handle_categorical_st lib r2))) s1 = (s', res)"
    from forS_keeps [OF 1 assms(2), of ?Q] conv have K1: "?K s1" by blast
    then have r1: "r < length s1" using assms(2) by simp
    from bindS_cases [OF run2] show ?thesis
    proof (elim disjE exE conjE)
      fix e assume 2: "forS [''host_response_rate'', ''host_acceptance_rate'']
                    (\<lambda>column. in_place r (?perc column)) r s1 = (s', Inl e)"
        and "res = Inl e"
      from forS_keeps [OF 2 r1, of ?Q] conv K1 have "?K s'" by simp
      with \<open>res = Inl e\<close> show ?thesis by blast
    next
      fix s2 x2
      assume 2: "forS [''host_response_rate'', ''host_acceptance_rate'']
                    (\<lambda>column. in_place r (?perc column)) r s1 = (s2, Inr x2)"
        and run3: "bindS (handle_repetitive_data_st r)
           (\<lambda>r1. bindS (handle_numeric_st r1 ''median'')
           (\<lambda>r2. handle_categorical_st lib r2)) s2 = (s', res)"
      from forS_keeps [OF 2 r1, of ?Q] conv K1 have K2: "?K s2" by simp
      then have r2: "r < length s2" using assms(2) by simp
      from bindS_cases [OF run3] show ?thesis
      proof (elim disjE exE conjE)
        fix e assume 3: "handle_repetitive_data_st r s2 = (s', Inl e)" and "res = Inl e"
        from in_place_keeps [OF 3 [unfolded handle_repetitive_data_st_def] r2, of ?Q] rep K2
        have "?K s'" by simp
        with \<open>res = Inl e\<close> show ?thesis by blast
      next
        fix s3 x3
        assume 3: "handle_repetitive_data_st r s2 = (s3, Inr x3)"
          and run4: "bindS (handle_numeric_st x3 ''median'') (\<lambda>r2. handle_categorical_st lib r2) s3 = (s', res)"
        from in_place_keeps [OF 3 [unfolded handle_repetitive_data_st_def] r2, of ?Q] rep K2
        have K3: "?K s3" by simp
        then have r3: "r < length s3" using assms(2) by simp
        from in_place_cases [OF 3 [unfolded handle_repetitive_data_st_def]] have x3: "x3 = r" by auto
        from bindS_cases [OF run4] show ?thesis
        proof (elim disjE exE conjE)
          fix e assume 4: "handle_numeric_st x3 ''median'' s3 = (s', Inl e)" and "res = Inl e"
          from in_place_keeps [OF 4 [unfolded handle_numeric_st_def x3] r3, of ?Q] num K3
          have "?K s'" by simp
          with \<open>res = Inl e\<close> show ?thesis by blast
        next
          fix s4 x4
          assume 4: "handle_numeric_st x3 ''median'' s3 = (s4, Inr x4)"
            and 5: "handle_categorical_st lib x4 s4 = (s', res)"
          from in_place_keeps [OF 4 [unfolded handle_numeric_st_def x3] r3, of ?Q] num K3
          have K4: "?K s4" by simp
          from in_place_cases [OF 4 [unfolded handle_numeric_st_def x3]] have x4: "x4 = r" by auto
          from fresh_cases [OF 5 [unfolded handle_categorical_st_def x4]] K4
          show ?thesis by blast
        qed
      qed
    qed
  qed
qed

lemma clean_data_second_run:
  assumes "clean_data lib r s = (s', Inr r')" "r < length s"
  shows "\<exists>s'' e. clean_data lib r' s' = (s'', Inl e)"
proof -
  from clean_data_run [OF assms] obtain s4 d where
    l: "length s4 = length s" and hc: "handle_categorical lib (s4 ! r) = Inr d"
    and s': "s' = s4 @ [d]" and r': "r' = length s4"
    by auto
  from handle_categorical_names [OF hc] have q: "''host_location'' \<notin> set (col_names (s' ! r'))"
    by (simp add: s' r')
  have lt: "r' < length s'" by (simp add: s' r')
  obtain s'' res where run: "clean_data lib r' s' = (s'', res)" by (cases "clean_data lib r' s'")
  from clean_data_run [OF run lt] q obtain t where
    qt: "''host_location'' \<notin> set (col_names (t ! r'))"
    and alt: "(\<exists>e. res = Inl e \<and> s'' = t) \<or>
            (\<exists>d. handle_categorical lib (t ! r') = Inr d \<and> s'' = t @ [d] \<and> res = Inr (length t))"
    by auto
  from handle_categorical_fails [OF qt, of lib] alt have "\<exists>e. res = Inl e" by auto
  with run show ?thesis by blast
qed

lemma listings_first_run:
  "clean_data stable_lib 0 [listings_raw] = ([listings_in_place, listings_clean], Inr 1)"
  by (simp add: clean_data_def bindS_def in_place_def fresh_def convert_column_def
      handle_repetitive_data_st_def handle_numeric_st_def handle_categorical_st_def
      handle_repetitive_data_def handle_numeric_def handle_categorical_def
      impute_categorical_def drop_unresolved_def stable_lib_def
      money_to_numeric_def percentage_to_numeric_def to_numeric_def parse_decimal_def
      digit_of_def drop_duplicates_def row_cells_def columns_missing_list_def select_dtype_def
      is_number_col_def is_text_def count_nulls_def dropna_def np_median_def
      bindE_def get_col_def drop_rows_def keep_rows_def
      drop_labels_def drop_cols_def col_names_def set_col_def fillna_def isna_def get_mode_def
      get_mode_by_zip_def search_similar_zip_def value_counts_def counts_item0_def is_num_def
      loc_set_def cell_eq_def Let_def)

text \<open>
  C8, as the claim has it, fails: \<open>clean_data\<close> succeeds on the raw listings, and
  applied to the frame it returned it raises TypeError at the price column, which is
  numeric by then, instead of returning that frame again.
\<close>

theorem clean_data_twice_counterexample:
  "clean_data stable_lib 0 [listings_raw] = ([listings_in_place, listings_clean], Inr 1) \<and>
   clean_data stable_lib 1 [listings_in_place, listings_clean] =
     ([listings_in_place, listings_clean], Inl TypeError)"
  by (simp add: listings_first_run)
    (simp add: clean_data_def bindS_def in_place_def convert_column_def money_to_numeric_def
      bindE_def get_col_def Let_def)

text \<open>
  C8, amended. \<open>clean_data\<close> is not idempotent: whenever it succeeds on a frame, a
  second application to the frame it returned raises an error. That frame has lost its
  column host_location, which \<open>handle_categorical\<close> drops without catching the
  KeyError, unless an earlier step of the second run has raised before.
\<close>

theorem clean_data_second_run_fails:
  assumes "clean_data lib r s = (s', Inr r')" "r < length s"
  shows "\<exists>s'' e. clean_data lib r' s' = (s'', Inl e)"
  using assms by (rule clean_data_second_run)

theorem clean_data_second_run_fails_witness:
  "\<exists>s'' e. clean_data stable_lib 1 [listings_in_place, listings_clean] = (s'', Inl e)"
proof -
  have "(0::nat) < length [listings_raw]" by simp
  from clean_data_second_run_fails [OF listings_first_run this] show ?thesis .
qed

text \<open>
  C9, as the claim has it, fails: on a frame without a zipcode column
  \<open>handle_categorical\<close> raises KeyError, and the frame of the caller is left with its
  prices converted and its nulls imputed, not as it was.
\<close>

theorem clean_data_partial_counterexample:
  "clean_data stable_lib 0
     [\<lparr>index = [3, 4],
       columns = [(''price'', [Text ''$1,200'', Text ''$80'']), (''beds'', [Num 1, Null])]\<rparr>] =
     ([\<lparr>index = [3, 4],
       columns = [(''price'', [Num 1200, Num 80]), (''beds'', [Num 1, Num 1])]\<rparr>],
      Inl (KeyError ''zipcode''))"
  by (simp add: clean_data_def bindS_def in_place_def fresh_def convert_column_def
      handle_repetitive_data_st_def handle_numeric_st_def handle_categorical_st_def
      handle_repetitive_data_def handle_numeric_def handle_categorical_def
      impute_categorical_def drop_unresolved_def stable_lib_def
      money_to_numeric_def percentage_to_numeric_def to_numeric_def parse_decimal_def
      digit_of_def drop_duplicates_def row_cells_def columns_missing_list_def select_dtype_def
      is_number_col_def is_text_def count_nulls_def dropna_def np_median_def
      bindE_def get_col_def drop_rows_def keep_rows_def
      drop_labels_def drop_cols_def col_names_def set_col_def fillna_def isna_def Let_def)

lemma run_steps_append:
  "run_steps (fs @ gs) df =
     (case run_steps fs df of (d, Some e) \<Rightarrow> (d, Some e) | (d, None) \<Rightarrow> run_steps gs d)"
  by (induction fs arbitrary: df) (auto split: sum.splits)

lemma forS_run_steps:
  assumes "r < length s"
  shows "forS xs (\<lambda>x. in_place r (g x)) r s =
     (case run_steps (map g xs) (s ! r) of
        (df, Some e) \<Rightarrow> (s[r := df], Inl e)
      | (df, None) \<Rightarrow> (s[r := df], Inr r))"
  using assms
proof (induction xs arbitrary: s)
  case Nil
  then show ?case by simp
next
  case (Cons x xs)
  show ?case
  proof (cases "g x (s ! r)")
    case (Inl e)
    then show ?thesis by (simp add: bindS_def in_place_def)
  next
    case (Inr d)
    from Cons.prems have "r < length (s[r := d])" by simp
    from Cons.IH [OF this] Inr Cons.prems show ?thesis
      by (simp add: bindS_def in_place_def)
  qed
qed

lemma in_place_run_steps:
  assumes "r < length s"
  shows "in_place r f s =
     (case run_steps [f] (s ! r) of
        (df, Some e) \<Rightarrow> (s[r := df], Inl e)
      | (df, None) \<Rightarrow> (s[r := df], Inr r))"
  by (simp add: in_place_def split: sum.splits)

text \<open>
  C9, amended. A run of \<open>clean_data\<close> on a frame of the store is the run of its steps
  in place on that frame followed by \<open>handle_categorical\<close>: the error it returns is
  that of the first step that raises without being caught, and then no frame is added;
  otherwise it returns the address of one new frame, the fully cleaned table, which is
  \<open>handle_categorical\<close> of the frame the steps in place have reached. In both cases
  the frame of the caller is left as the steps in place completed before the error have
  made it, and every other frame of the store is as it was.
\<close>

theorem clean_data_frame:
  assumes "r < length s"
  shows "clean_data lib r s =
     (case run_steps (in_place_steps lib) (s ! r) of
        (df, Some e) \<Rightarrow> (s[r := df], Inl e)
      | (df, None) \<Rightarrow>
          (case handle_categorical lib df of
             Inl e \<Rightarrow> (s[r := df], Inl e)
           | Inr cleaned \<Rightarrow> (s[r := df] @ [cleaned], Inr (length s))))"
proof -
  let ?M = "map (convert_column (\<lambda>cs. bindE (money_to_numeric cs) (to_numeric lib)))
         [''price'', ''extra_people'']"
  let ?P = "map (convert_column (\<lambda>cs. bindE (percentage_to_numeric cs) (to_numeric lib)))
         [''host_response_rate'', ''host_acceptance_rate'']"
  let ?R = "[handle_repetitive_data]"
  let ?N = "[\<lambda>df. handle_numeric df ''median'']"
  have st: "in_place_steps lib = ?M @ ?P @ ?R @ ?N" by (simp add: in_place_steps_def)
  have cd: "clean_data lib r s =
     bindS (forS [''price'', ''extra_people'']
              (\<lambda>x. in_place r (convert_column (\<lambda>cs. bindE (money_to_numeric cs) (to_numeric lib)) x)) r)
       (\<lambda>_. bindS (forS [''host_response_rate'', ''host_acceptance_rate'']
              (\<lambda>x. in_place r (convert_column (\<lambda>cs. bindE (percentage_to_numeric cs) (to_numeric lib)) x)) r)
       (\<lambda>_. bindS (in_place r handle_repetitive_data)
       (\<lambda>r1. bindS (in_place r1 (\<lambda>df. handle_numeric df ''median''))
       (\<lambda>r2. fresh r2 (handle_categorical lib))))) s"
    by (simp add: clean_data_def Let_def handle_repetitive_data_st_def handle_numeric_st_def
        handle_categorical_st_def)
  obtain d1 e1 where m: "run_steps ?M (s ! r) = (d1, e1)" by (cases "run_steps ?M (s ! r)")
  show ?thesis
  proof (cases e1)
    case (Some e)
    with m assms show ?thesis
      unfolding cd st run_steps_append
      by (simp add: bindS_def forS_run_steps del: forS.simps run_steps.simps)
  next
    case None
    note e1 = this
    obtain d2 e2 where p: "run_steps ?P d1 = (d2, e2)" by (cases "run_steps ?P d1")
    show ?thesis
    proof (cases e2)
      case (Some e)
      with m e1 p assms show ?thesis
        unfolding cd st run_steps_append
        by (simp add: bindS_def forS_run_steps del: forS.simps run_steps.simps)
    next
      case None
      with m e1 p assms show ?thesis
        unfolding cd st run_steps_append
        by (simp add: bindS_def forS_run_steps in_place_def fresh_def
            del: forS.simps split: sum.splits)
    qed
  qed
qed

theorem clean_data_frame_witness:
  "clean_data stable_lib 0 [fees_raw] =
     ([\<lparr>index = [3, 4],
        columns = [(''price'', [Num 1200, Num 80]),
                   (''extra_people'', [Text ''$25'', Null])]\<rparr>], Inl TypeError)"
proof -
  have r: "run_steps (in_place_steps stable_lib) fees_raw =
     (\<lparr>index = [3, 4],
        columns = [(''price'', [Num 1200, Num 80]),
                   (''extra_people'', [Text ''$25'', Null])]\<rparr>, Some TypeError)"
    by (simp add: in_place_steps_def convert_column_def bindE_def get_col_def set_col_def
        col_names_def money_to_numeric_def to_numeric_def stable_lib_def parse_decimal_def
        digit_of_def Let_def)
  have "(0::nat) < length [fees_raw]" by simp
  from clean_data_frame [OF this, of stable_lib] r show ?thesis by simp
qed

subsection \<open>The denylist of the amenities\<close>

text \<open>
  C7. Two inputs on which the denylist is not handled as the claim has it. Where no row
  yields the empty token, the first \<open>drop\<close> raises KeyError, the fallback drops the
  empty token alone, and that KeyError leaves the function. Where the empty token and
  one placeholder occur and the other placeholder does not, the fallback removes the
  empty token only and the placeholder that occurs stays a column of the result.
\<close>

theorem amenities_denylist_not_tolerant:
  "get_df_from_column (filter (\<lambda>c. c \<notin> set ''{}''))
     \<lparr>index = [3, 4], columns = [(''amenities'', [Text ''{TV,Wifi}'', Text ''{TV}''])]\<rparr>
     ''amenities'' = Inl (KeyError []) \<and>
   get_df_from_column (filter (\<lambda>c. c \<notin> set ''{}''))
     \<lparr>index = [3, 4],
      columns = [(''amenities'',
                  [Text ''{TV,translation missing: en.hosting_amenity_49}'', Text ''{}''])]\<rparr>
     ''amenities'' =
   Inr \<lparr>xindex = [3, 4],
        xcolumns = [(''amenities'', [Tokens [''TV'', ''translation missing: en.hosting_amenity_49''],
                                   Tokens [[]]]),
                    (''TV'', [Ind 1, Ind 0]),
                    (''translation missing: en.hosting_amenity_49'', [Ind 1, Ind 0]),
                    (''number_of_amenities'', [Ind 2, Ind 1])]\<rparr>"
  by code_simp

end
